theory Spec2Isabelle
  imports Main "HOL-Library.Word" "HOL-Library.Signed_Division"
begin

unbundle bit_operations_syntax

chapter \<open>The embedding of the sources\<close>

section \<open>Errors and results\<close>

text \<open>
  Every \<^verbatim>\<open>throw new Error(...)\<close> of the sources, and every exception the JavaScript
  runtime itself raises on the paths modelled here, is a value of \<open>error\<close>. A function
  that can throw returns \<open>error + 'a\<close>, with \<open>Inl\<close> for the exception.

  \<^item> \<open>DivisionByZero\<close>: 'Cannot invert zero' (field.ts)
  \<^item> \<open>NotInvertible\<close>: 'Element is not invertible' (field.ts)
  \<^item> \<open>FieldMismatch\<close>: 'Field mismatch' (field.ts)
  \<^item> \<open>InvalidLength\<close>: 'Expected 32 bytes for field element' (field.ts)
  \<^item> \<open>EmptyInput\<close>: 'Merkle tree must have at least one leaf' (merkle.ts)
  \<^item> \<open>IndexOutOfRange\<close>: 'Invalid leaf index' (merkle.ts)
  \<^item> \<open>InvalidParams\<close>: 'steps must be >= 2', 'queries must be >= 1',
    'queries must be <= steps - 1' (prover.ts)
  \<^item> \<open>WitnessMismatch\<close>: 'Witness does not match statement.finalHash' (prover.ts)
  \<^item> \<open>RangeError\<close>: raised by the runtime: BigInt division by zero, an array length
    outside \<open>[0, 2^32 - 1]\<close>
  \<^item> \<open>TypeError\<close>: raised by the runtime: \<^verbatim>\<open>BigInt(undefined)\<close>
\<close>

datatype error =
    DivisionByZero
  | NotInvertible
  | FieldMismatch
  | InvalidLength
  | EmptyInput
  | IndexOutOfRange
  | InvalidParams
  | WitnessMismatch
  | RangeError
  | TypeError

definition bindE :: "error + 'a \<Rightarrow> ('a \<Rightarrow> error + 'b) \<Rightarrow> error + 'b" where
  "bindE r f = (case r of Inl e \<Rightarrow> Inl e | Inr x \<Rightarrow> f x)"

type_synonym byte = "8 word"
type_synonym bytes = "byte list"

section \<open>field.ts: the class FieldElement\<close>

record FieldElement =
  "value" :: int
  modulus :: int

text \<open>
  BigInt \<^verbatim>\<open>%\<close> and \<^verbatim>\<open>/\<close> truncate towards zero: they are \<open>smod\<close> and \<open>sdiv\<close>.
  \<^verbatim>\<open>n % 0n\<close> throws a RangeError, which the constructor lets through.
\<close>

definition mod_fe :: "int \<Rightarrow> int \<Rightarrow> int" where
  "mod_fe m n = (let result = n smod m in if result \<ge> 0 then result else result + m)"

definition new_FieldElement :: "int \<Rightarrow> int \<Rightarrow> error + FieldElement" where
  "new_FieldElement v m =
     (if m = 0 then Inl RangeError
      else Inr \<lparr>value = mod_fe m v, modulus = m\<rparr>)"

definition ensureSameField :: "FieldElement \<Rightarrow> FieldElement \<Rightarrow> error + unit" where
  "ensureSameField this other =
     (if modulus this \<noteq> modulus other then Inl FieldMismatch else Inr ())"

definition add :: "FieldElement \<Rightarrow> FieldElement \<Rightarrow> error + FieldElement" where
  "add this other =
     bindE (ensureSameField this other)
       (\<lambda>_. new_FieldElement (value this + value other) (modulus this))"

definition sub :: "FieldElement \<Rightarrow> FieldElement \<Rightarrow> error + FieldElement" where
  "sub this other =
     bindE (ensureSameField this other)
       (\<lambda>_. new_FieldElement (value this - value other) (modulus this))"

definition mul :: "FieldElement \<Rightarrow> FieldElement \<Rightarrow> error + FieldElement" where
  "mul this other =
     bindE (ensureSameField this other)
       (\<lambda>_. new_FieldElement (value this * value other) (modulus this))"

text \<open>The loop of \<^verbatim>\<open>extendedGcd\<close>, on the four variables it updates.\<close>

function extendedGcd_loop :: "int \<Rightarrow> int \<Rightarrow> int \<Rightarrow> int \<Rightarrow> int \<times> int" where
  "extendedGcd_loop oldR r oldS s =
     (if r \<noteq> 0 then
        (let quotient = oldR sdiv r
         in extendedGcd_loop r (oldR - quotient * r) s (oldS - quotient * s))
      else (oldR, oldS))"
  by pat_completeness auto
termination
proof (relation "measure (\<lambda>(oldR, r, oldS, s). nat \<bar>r\<bar>)")
  show "wf (measure (\<lambda>(oldR, r, oldS, s). nat \<bar>r\<bar>))" by simp
next
  fix oldR r oldS s quotient :: int
  assume r: "r \<noteq> 0" and q: "quotient = oldR sdiv r"
  have "oldR - quotient * r = oldR smod r"
    unfolding q by (simp add: minus_sdiv_mult_eq_smod)
  moreover have "\<bar>oldR smod r\<bar> < \<bar>r\<bar>"
    using r by (simp add: smod_int_alt_def abs_mult abs_sgn_eq)
  ultimately show "((r, oldR - quotient * r, s, oldS - quotient * s), (oldR, r, oldS, s))
      \<in> measure (\<lambda>(oldR, r, oldS, s). nat \<bar>r\<bar>)"
    by simp
qed

declare extendedGcd_loop.simps [simp del]

definition extendedGcd :: "int \<Rightarrow> int \<Rightarrow> int \<times> int" where
  "extendedGcd a b = (if b = 0 then (a, 1) else extendedGcd_loop a b 1 0)"

definition inverse_fe :: "FieldElement \<Rightarrow> error + FieldElement" where
  "inverse_fe this =
     (if value this = 0 then Inl DivisionByZero
      else (case extendedGcd (value this) (modulus this) of
              (g, x) \<Rightarrow>
                if g \<noteq> 1 then Inl NotInvertible
                else new_FieldElement x (modulus this)))"

definition div_fe :: "FieldElement \<Rightarrow> FieldElement \<Rightarrow> error + FieldElement" where
  "div_fe this other =
     bindE (ensureSameField this other)
       (\<lambda>_. bindE (inverse_fe other) (\<lambda>inv. mul this inv))"

text \<open>The square-and-multiply loop of \<^verbatim>\<open>pow\<close>, on \<open>result\<close>, \<open>base\<close> and \<open>exp\<close>.\<close>

function pow_loop :: "FieldElement \<Rightarrow> FieldElement \<Rightarrow> int \<Rightarrow> error + FieldElement" where
  "pow_loop result base exp =
     (if exp > 0 then
        (case (if exp smod 2 = 1 then mul result base else Inr result) of
           Inl e \<Rightarrow> Inl e
         | Inr result' \<Rightarrow>
             (case mul base base of
                Inl e \<Rightarrow> Inl e
              | Inr base' \<Rightarrow> pow_loop result' base' (exp sdiv 2)))
      else Inr result)"
  by pat_completeness auto
termination
proof (relation "measure (\<lambda>(result, base, exp). nat exp)")
  show "wf (measure (\<lambda>(result, base, exp). nat exp))" by simp
next
  fix result base :: FieldElement and exp :: int and x2 x2a :: FieldElement
  assume "0 < exp"
  then have "exp sdiv 2 < exp"
    by (simp add: signed_divide_int_def sgn_if)
  with \<open>0 < exp\<close> show "((x2, x2a, exp sdiv 2), (result, base, exp))
      \<in> measure (\<lambda>(result, base, exp). nat exp)"
    by simp
qed

declare pow_loop.simps [simp del]

text \<open>
  \<^verbatim>\<open>pow\<close>: a negative exponent inverts first and recurses once, with the exponent
  negated (positive from then on).
\<close>

definition pow_nonneg :: "FieldElement \<Rightarrow> int \<Rightarrow> error + FieldElement" where
  "pow_nonneg this exponent =
     bindE (new_FieldElement 1 (modulus this)) (\<lambda>result. pow_loop result this exponent)"

definition pow :: "FieldElement \<Rightarrow> int \<Rightarrow> error + FieldElement" where
  "pow this exponent =
     (if exponent < 0 then bindE (inverse_fe this) (\<lambda>inv. pow_nonneg inv (- exponent))
      else pow_nonneg this exponent)"

definition neg :: "FieldElement \<Rightarrow> error + FieldElement" where
  "neg this = new_FieldElement (- value this) (modulus this)"

definition equals :: "FieldElement \<Rightarrow> FieldElement \<Rightarrow> bool" where
  "equals this other \<longleftrightarrow> value this = value other \<and> modulus this = modulus other"

definition isZero :: "FieldElement \<Rightarrow> bool" where
  "isZero this \<longleftrightarrow> value this = 0"

definition zero_fe :: "int \<Rightarrow> error + FieldElement" where
  "zero_fe m = new_FieldElement 0 m"

definition one_fe :: "int \<Rightarrow> error + FieldElement" where
  "one_fe m = new_FieldElement 1 m"

definition STARK_PRIME :: int where
  "STARK_PRIME = 2 ^ 251 + 17 * 2 ^ 192 + 1"

definition createField :: "int \<Rightarrow> error + FieldElement" where
  "createField v = new_FieldElement v STARK_PRIME"

text \<open>\<^verbatim>\<open>authHash\<close>, the transition \<open>x^3 + 7\<close>: \<open>c7\<close> is built first, as in the source.\<close>

definition authHash :: "FieldElement \<Rightarrow> error + FieldElement" where
  "authHash x =
     bindE (new_FieldElement 7 (modulus x))
       (\<lambda>c7. bindE (pow x 3) (\<lambda>x3. add x3 c7))"

section \<open>field.ts: the 32-byte encoding\<close>

text \<open>
  \<^verbatim>\<open>fe.value.toString(16)\<close>: the hexadecimal digits of a BigInt, lower case, most
  significant first, with a leading minus sign for a negative value.
\<close>

definition hex_digit :: "int \<Rightarrow> char" where
  "hex_digit d = ''0123456789abcdef'' ! nat d"

function to_hex :: "int \<Rightarrow> string" where
  "to_hex n = (if n < 16 then [hex_digit n] else to_hex (n div 16) @ [hex_digit (n mod 16)])"
  by pat_completeness auto
termination
  by (relation "measure (\<lambda>n. nat n)") auto

declare to_hex.simps [simp del]

definition toString16 :: "int \<Rightarrow> string" where
  "toString16 v = (if v < 0 then CHR ''-'' # to_hex (- v) else to_hex v)"

definition padStart :: "nat \<Rightarrow> char \<Rightarrow> string \<Rightarrow> string" where
  "padStart n c s = replicate (n - length s) c @ s"

definition slice_str :: "string \<Rightarrow> nat \<Rightarrow> nat \<Rightarrow> string" where
  "slice_str s b e = take (e - b) (drop b s)"

text \<open>
  \<^verbatim>\<open>parseInt(s, 16)\<close> on a string with no leading white space: an optional sign, an
  optional \<^verbatim>\<open>0x\<close>, then the longest run of hexadecimal digits; \<open>None\<close> is NaN.
\<close>

definition digit_val :: "char \<Rightarrow> nat option" where
  "digit_val c =
     (let k = of_char c :: nat in
      if 48 \<le> k \<and> k \<le> 57 then Some (k - 48)
      else if 97 \<le> k \<and> k \<le> 102 then Some (k - 87)
      else if 65 \<le> k \<and> k \<le> 70 then Some (k - 55)
      else None)"

definition parseInt16 :: "string \<Rightarrow> int option" where
  "parseInt16 s =
     (let (sign, s1) =
            (case s of
               [] \<Rightarrow> (1, s)
             | c # r \<Rightarrow> if c = CHR ''-'' then (- 1, r) else if c = CHR ''+'' then (1, r) else (1, s));
          s2 = (case s1 of
                  a # b # r \<Rightarrow>
                    if a = CHR ''0'' \<and> (b = CHR ''x'' \<or> b = CHR ''X'') then r else s1
                | _ \<Rightarrow> s1);
          ds = takeWhile (\<lambda>c. digit_val c \<noteq> None) s2
      in if ds = [] then None
         else Some (sign * int (foldl (\<lambda>a c. 16 * a + the (digit_val c)) 0 ds)))"

text \<open>Storing a number into a \<^verbatim>\<open>Uint8Array\<close>: NaN becomes 0, an integer wraps modulo 256.\<close>

definition toUint8 :: "int option \<Rightarrow> byte" where
  "toUint8 x = (case x of None \<Rightarrow> 0 | Some k \<Rightarrow> word_of_int k)"

definition fieldElementToBytes :: "FieldElement \<Rightarrow> bytes" where
  "fieldElementToBytes fe =
     (let hex = padStart 64 (CHR ''0'') (toString16 (value fe))
      in map (\<lambda>i. toUint8 (parseInt16 (slice_str hex (i * 2) (i * 2 + 2)))) [0..<32])"

definition fieldElementFromBytes :: "bytes \<Rightarrow> error + FieldElement" where
  "fieldElementFromBytes bs =
     (if length bs \<noteq> 32 then Inl InvalidLength
      else new_FieldElement (foldl (\<lambda>v b. (push_bit 8 v) OR uint b) 0 bs) STARK_PRIME)"

section \<open>merkle.ts\<close>

text \<open>
  \<^verbatim>\<open>sha256\<close> comes from the package \<^verbatim>\<open>@noble/hashes\<close>, which is not part of the
  repository: every function that hashes takes the hash function as its first
  argument \<open>H\<close>, and every theorem holds for any \<open>H\<close>.
\<close>

type_synonym hashfn = "bytes \<Rightarrow> bytes"

datatype position = Left | Right

record ProofNode =
  hash :: bytes
  position :: position

record MerkleProof =
  leaf :: bytes
  "proof" :: "ProofNode list"
  root :: bytes

record MerkleTree =
  leaves :: "bytes list"
  layers :: "bytes list list"
  root :: bytes

text \<open>\<^verbatim>\<open>arraysEqual\<close> (merkle.ts and verifier.ts): the lengths, then element by element.\<close>

definition arraysEqual :: "bytes \<Rightarrow> bytes \<Rightarrow> bool" where
  "arraysEqual a b =
     (if length a \<noteq> length b then False
      else list_all (\<lambda>i. a ! i = b ! i) [0..<length a])"

text \<open>
  The inner loop of \<^verbatim>\<open>buildTree\<close> (\<^verbatim>\<open>i += 2\<close>): adjacent pairs are hashed, an
  unpaired last node is pushed unchanged.
\<close>

fun next_layer :: "hashfn \<Rightarrow> bytes list \<Rightarrow> bytes list" where
  "next_layer H (a # b # rest) = H (a @ b) # next_layer H rest"
| "next_layer H [a] = [a]"
| "next_layer H [] = []"

lemma length_next_layer: "length (next_layer H l) = (length l + 1) div 2"
  by (induction H l rule: next_layer.induct) simp_all

text \<open>
  The outer loop of \<^verbatim>\<open>buildTree\<close>, on \<open>currentLayer\<close> and \<open>this.layers\<close>; it returns
  the final \<open>this.layers\<close> and the last \<open>currentLayer\<close>.
\<close>

function buildTree_loop :: "hashfn \<Rightarrow> bytes list \<Rightarrow> bytes list list \<Rightarrow> bytes list list \<times> bytes list" where
  "buildTree_loop H currentLayer lays =
     (if length currentLayer > 1 then
        (let nextLayer = next_layer H currentLayer
         in buildTree_loop H nextLayer (lays @ [nextLayer]))
      else (lays, currentLayer))"
  by pat_completeness auto
termination
  by (relation "measure (\<lambda>(H, currentLayer, lays). length currentLayer)")
     (auto simp: length_next_layer)

declare buildTree_loop.simps [simp del]

text \<open>
  The constructor: \<^verbatim>\<open>this.layers = [leaves]\<close>, then \<^verbatim>\<open>buildTree\<close>, whose result
  \<^verbatim>\<open>currentLayer[0]\<close> is the root.
\<close>

definition new_MerkleTree :: "hashfn \<Rightarrow> bytes list \<Rightarrow> error + MerkleTree" where
  "new_MerkleTree H lvs =
     (if length lvs = 0 then Inl EmptyInput
      else (case buildTree_loop H lvs [lvs] of
              (lays, currentLayer) \<Rightarrow>
                Inr \<lparr>leaves = lvs, layers = lays, root = currentLayer ! 0\<rparr>))"

definition getRoot :: "MerkleTree \<Rightarrow> bytes" where
  "getRoot tree = MerkleTree.root tree"

text \<open>The loop of \<^verbatim>\<open>getProof\<close>, on \<open>i\<close>, \<open>currentIndex\<close> and \<open>proof\<close>.\<close>

function getProof_loop :: "bytes list list \<Rightarrow> nat \<Rightarrow> nat \<Rightarrow> ProofNode list \<Rightarrow> ProofNode list" where
  "getProof_loop lays i currentIndex prf =
     (if i < length lays - 1 then
        (let layer = lays ! i;
             isRightNode = (currentIndex mod 2 = 1);
             siblingIndex = (if isRightNode then currentIndex - 1 else currentIndex + 1);
             prf' = (if siblingIndex < length layer
                     then prf @ [\<lparr>hash = layer ! siblingIndex,
                                  position = (if isRightNode then Left else Right)\<rparr>]
                     else prf)
         in getProof_loop lays (i + 1) (currentIndex div 2) prf')
      else prf)"
  by pat_completeness auto
termination
  by (relation "measure (\<lambda>(lays, i, currentIndex, prf). length lays - 1 - i)") auto

declare getProof_loop.simps [simp del]

definition getProof :: "MerkleTree \<Rightarrow> int \<Rightarrow> error + MerkleProof" where
  "getProof tree idx =
     (if idx < 0 \<or> idx \<ge> int (length (leaves tree)) then Inl IndexOutOfRange
      else Inr \<lparr>leaf = leaves tree ! nat idx,
                proof = getProof_loop (layers tree) 0 (nat idx) [],
                root = MerkleTree.root tree\<rparr>)"

text \<open>\<^verbatim>\<open>MerkleProof.verify\<close>: one step of its loop, then the loop and the comparison.\<close>

definition verify_step :: "hashfn \<Rightarrow> bytes \<Rightarrow> ProofNode \<Rightarrow> bytes" where
  "verify_step H currentHash node =
     (if position node = Left then H (hash node @ currentHash)
      else H (currentHash @ hash node))"

definition MerkleProof_verify :: "hashfn \<Rightarrow> MerkleProof \<Rightarrow> bool" where
  "MerkleProof_verify H p =
     arraysEqual (foldl (verify_step H) (leaf p) (proof p)) (MerkleProof.root p)"

section \<open>prover.ts\<close>

record Statement =
  steps :: int
  finalHash :: FieldElement

record Witness =
  secret :: FieldElement

record AuthParams =
  steps :: int
  queries :: int

record AuthOpening =
  index :: int
  current :: FieldElement
  "next" :: FieldElement
  proofCurrent :: MerkleProof
  proofNext :: MerkleProof

record Proof =
  root :: bytes
  indices :: "int list"
  openings :: "AuthOpening list"

text \<open>
  The numbers \<open>steps\<close>, \<open>queries\<close> and the indices are JavaScript numbers; the model
  takes them to hold integers that a double represents exactly, and has them as \<open>int\<close>
  (a fraction, NaN or an infinity in \<open>steps\<close> or \<open>queries\<close> is outside the model). A
  JavaScript array holds at most \<open>2^32 - 1\<close> elements: \<^verbatim>\<open>new Array(n)\<close> with \<open>n\<close> above
  that, and a \<^verbatim>\<open>push\<close> onto an array of that length, throw a RangeError.
\<close>

definition MAX_ARRAY_LENGTH :: int where
  "MAX_ARRAY_LENGTH = 2 ^ 32 - 1"

text \<open>
  The loop of \<^verbatim>\<open>buildAuthTrace\<close>. The array is filled from left to right; the model
  holds its filled prefix, so that \<open>trace[i - 1]\<close> is its last element.
\<close>

function buildAuthTrace_loop :: "int \<Rightarrow> int \<Rightarrow> FieldElement list \<Rightarrow> error + FieldElement list" where
  "buildAuthTrace_loop i n trace =
     (if i < n then
        (case authHash (trace ! nat (i - 1)) of
           Inl e \<Rightarrow> Inl e
         | Inr t \<Rightarrow> buildAuthTrace_loop (i + 1) n (trace @ [t]))
      else Inr trace)"
  by pat_completeness auto
termination
  by (relation "measure (\<lambda>(i, n, trace). nat (n - i))") auto

declare buildAuthTrace_loop.simps [simp del]

definition buildAuthTrace :: "Witness \<Rightarrow> AuthParams \<Rightarrow> error + FieldElement list" where
  "buildAuthTrace witness params =
     (let n = AuthParams.steps params in
      if n < 2 then Inl InvalidParams
      else if n > MAX_ARRAY_LENGTH then Inl RangeError
      else (case authHash (secret witness) of
              Inl e \<Rightarrow> Inl e
            | Inr t0 \<Rightarrow> buildAuthTrace_loop 1 n [t0]))"

definition computeChallengeSeed :: "hashfn \<Rightarrow> bytes \<Rightarrow> Statement \<Rightarrow> bytes" where
  "computeChallengeSeed H rt statement = H (rt @ fieldElementToBytes (finalHash statement))"

text \<open>
  The four counter bytes: \<^verbatim>\<open>>>>\<close> first converts the number to an unsigned 32-bit
  integer. \<^verbatim>\<open>counter++\<close> on a double stops at \<open>2^53\<close>, where adding one rounds back.
\<close>

definition counter_bytes :: "int \<Rightarrow> bytes" where
  "counter_bytes counter =
     (let c = (word_of_int counter :: 32 word) in
      [ucast ((drop_bit 24 c) AND 0xff),
       ucast ((drop_bit 16 c) AND 0xff),
       ucast ((drop_bit 8 c) AND 0xff),
       ucast (c AND 0xff)])"

definition counter_incr :: "int \<Rightarrow> int" where
  "counter_incr counter = (if counter < 2 ^ 53 then counter + 1 else counter)"

text \<open>
  One draw, the body of the loop up to \<open>idx\<close>: hash \<open>seed || ctr\<close>, fold the first 8 digest
  bytes into \<open>acc\<close>, reduce modulo \<open>steps - 1\<close>. Reading \<open>h[i]\<close> beyond the digest gives
  \<^verbatim>\<open>undefined\<close>, on which \<^verbatim>\<open>BigInt\<close> throws a TypeError; \<^verbatim>\<open>acc % 0n\<close> throws a RangeError
  (the guards of \<^verbatim>\<open>deriveQueryIndices\<close> exclude it).
\<close>

definition draw_index :: "hashfn \<Rightarrow> bytes \<Rightarrow> int \<Rightarrow> int \<Rightarrow> error + int" where
  "draw_index H seed counter n =
     (let h = H (seed @ counter_bytes counter) in
      if length h < 8 then Inl TypeError
      else if n - 1 = 0 then Inl RangeError
      else Inr ((foldl (\<lambda>acc b. (push_bit 8 acc) OR uint b) 0 (take 8 h)) smod (n - 1)))"

text \<open>
  The \<^verbatim>\<open>while\<close> loop of \<^verbatim>\<open>deriveQueryIndices\<close>, on \<open>indices\<close> and \<open>counter\<close>. Nothing bounds
  the number of its iterations: \<open>None\<close> is a loop that never ends.
\<close>

partial_function (option) deriveQueryIndices_loop ::
  "hashfn \<Rightarrow> bytes \<Rightarrow> int \<Rightarrow> int \<Rightarrow> int list \<Rightarrow> int \<Rightarrow> (error + int list) option" where
  "deriveQueryIndices_loop H seed n q idxs counter =
     (if int (length idxs) < q then
        (case draw_index H seed counter n of
           Inl e \<Rightarrow> Some (Inl e)
         | Inr idx \<Rightarrow>
             if idx \<notin> set idxs then
               (if int (length idxs) \<ge> MAX_ARRAY_LENGTH then Some (Inl RangeError)
                else deriveQueryIndices_loop H seed n q (idxs @ [idx]) (counter_incr counter))
             else deriveQueryIndices_loop H seed n q idxs (counter_incr counter))
      else Some (Inr idxs))"

definition deriveQueryIndices :: "hashfn \<Rightarrow> bytes \<Rightarrow> AuthParams \<Rightarrow> (error + int list) option" where
  "deriveQueryIndices H seed params =
     (let n = AuthParams.steps params; q = queries params in
      if q < 1 then Some (Inl InvalidParams)
      else if n < 2 then Some (Inl InvalidParams)
      else if q > n - 1 then Some (Inl InvalidParams)
      else deriveQueryIndices_loop H seed n q [n - 2] 0)"




section \<open>verifier.ts\<close>

definition arrayEqualNumbers :: "int list \<Rightarrow> int list \<Rightarrow> bool" where
  "arrayEqualNumbers a b =
     (if length a \<noteq> length b then False
      else list_all (\<lambda>i. a ! i = b ! i) [0..<length a])"

text \<open>
  The \<^verbatim>\<open>for\<close> loop of \<^verbatim>\<open>StarkVerifier.verify\<close>, on \<open>i\<close> and \<open>finalEdgeChecked\<close>, with the
  two statements after it. \<open>Inl\<close> is an exception on its way to the \<^verbatim>\<open>catch\<close>.
\<close>

function verify_loop ::
  "hashfn \<Rightarrow> Statement \<Rightarrow> int \<Rightarrow> Proof \<Rightarrow> nat \<Rightarrow> bool \<Rightarrow> error + bool" where
  "verify_loop H statement n prf i finalEdgeChecked =
     (if i < length (indices prf) then
        (let idx = indices prf ! i; opening = openings prf ! i in
         if index opening \<noteq> idx then Inr False
         else if idx < 0 \<or> idx \<ge> n - 1 then Inr False
         else if \<not> arraysEqual (MerkleProof.root (proofCurrent opening)) (Proof.root prf)
                 \<or> \<not> arraysEqual (MerkleProof.root (proofNext opening)) (Proof.root prf)
              then Inr False
         else if \<not> MerkleProof_verify H (proofCurrent opening) then Inr False
         else if \<not> MerkleProof_verify H (proofNext opening) then Inr False
         else (case authHash (current opening) of
                 Inl e \<Rightarrow> Inl e
               | Inr expectedNext \<Rightarrow>
                   if \<not> equals expectedNext (next opening) then Inr False
                   else if idx = n - 2 then
                     (if \<not> equals (next opening) (finalHash statement) then Inr False
                      else verify_loop H statement n prf (i + 1) True)
                   else verify_loop H statement n prf (i + 1) finalEdgeChecked))
      else if \<not> finalEdgeChecked then Inr False
      else Inr True)"
  by pat_completeness auto
termination
  by (relation "measure (\<lambda>(H, statement, n, prf, i, f). length (indices prf) - i)") auto

declare verify_loop.simps [simp del]

text \<open>The body of the \<^verbatim>\<open>try\<close> block.\<close>

definition verify_body ::
  "hashfn \<Rightarrow> Statement \<Rightarrow> AuthParams \<Rightarrow> Proof \<Rightarrow> (error + bool) option" where
  "verify_body H statement params prf =
     (let n = AuthParams.steps params; q = queries params in
      if n < 2 \<or> q < 1 then Some (Inr False)
      else if int (length (indices prf)) \<noteq> q then Some (Inr False)
      else if int (length (openings prf)) \<noteq> q then Some (Inr False)
      else (let seed = computeChallengeSeed H (Proof.root prf) statement in
            (case deriveQueryIndices H seed params of
               None \<Rightarrow> None
             | Some (Inl e) \<Rightarrow> Some (Inl e)
             | Some (Inr expectedIndices) \<Rightarrow>
                 if \<not> arrayEqualNumbers expectedIndices (indices prf) then Some (Inr False)
                 else Some (verify_loop H statement n prf 0 False))))"

text \<open>\<^verbatim>\<open>StarkVerifier.verify\<close>: the \<^verbatim>\<open>catch\<close> turns every exception into \<open>false\<close>.\<close>

definition StarkVerifier_verify ::
  "hashfn \<Rightarrow> Statement \<Rightarrow> AuthParams \<Rightarrow> Proof \<Rightarrow> bool option" where
  "StarkVerifier_verify H statement params prf =
     (case verify_body H statement params prf of
        None \<Rightarrow> None
      | Some (Inl err) \<Rightarrow> Some False
      | Some (Inr b) \<Rightarrow> Some b)"

chapter \<open>Notions of the specification\<close>

text \<open>
  Definitions that no source function computes: the predicates and values in which the
  properties below are stated, and the invariants of their proofs.
\<close>

text \<open>A prime, by trial division.\<close>

definition is_prime :: "int \<Rightarrow> bool" where
  "is_prime p \<longleftrightarrow> 1 < p \<and> (\<forall>d \<in> {2..<p}. \<not> d dvd p)"

text \<open>The big-endian value of a byte string.\<close>

definition bytes_to_int :: "bytes \<Rightarrow> int" where
  "bytes_to_int bs = foldl (\<lambda>v b. v * 256 + uint b) 0 bs"

text \<open>
  The value of a string of hexadecimal digits continuing the value \<open>a\<close>, and the
  characters \<^verbatim>\<open>toString(16)\<close> produces for a non-negative number.
\<close>

definition hexacc :: "int \<Rightarrow> string \<Rightarrow> int" where
  "hexacc a s = foldl (\<lambda>a c. 16 * a + int (the (digit_val c))) a s"

definition is_hex :: "char \<Rightarrow> bool" where
  "is_hex c \<longleftrightarrow> (\<exists>d < 16. digit_val c = Some d) \<and> c \<noteq> CHR ''x'' \<and> c \<noteq> CHR ''X'' \<and> c \<noteq> CHR ''-'' \<and> c \<noteq> CHR ''+''"

text \<open>
  The layers of a tree: each one is built from the one below it, which has more than
  one node.
\<close>

definition layers_ok :: "hashfn \<Rightarrow> bytes list list \<Rightarrow> bool" where
  "layers_ok H lays \<longleftrightarrow>
     lays \<noteq> [] \<and>
     (\<forall>i. i + 1 < length lays \<longrightarrow>
        lays ! (i + 1) = next_layer H (lays ! i) \<and> 1 < length (lays ! i))"

text \<open>What one iteration of the loop of \<^verbatim>\<open>getProof\<close> appends to the proof.\<close>

definition sibling_node :: "bytes list list \<Rightarrow> nat \<Rightarrow> nat \<Rightarrow> ProofNode list" where
  "sibling_node lays i idx =
     (let layer = lays ! i;
          isRightNode = (idx mod 2 = 1);
          siblingIndex = (if isRightNode then idx - 1 else idx + 1)
      in if siblingIndex < length layer
         then [\<lparr>hash = layer ! siblingIndex, position = (if isRightNode then Left else Right)\<rparr>]
         else [])"


text \<open>A list without its repetitions: of each value, the first occurrence stays.\<close>

definition keep_first :: "'a list \<Rightarrow> 'a list" where
  "keep_first l = rev (remdups (rev l))"




text \<open>The transition applied \<open>k\<close> times.\<close>

fun transition_iter :: "nat \<Rightarrow> FieldElement \<Rightarrow> error + FieldElement" where
  "transition_iter 0 x = Inr x"
| "transition_iter (Suc k) x = bindE (transition_iter k x) authHash"

text \<open>Element \<open>i\<close> of the trace a call returned; an exception stays an exception.\<close>

definition trace_at :: "nat \<Rightarrow> error + FieldElement list \<Rightarrow> error + FieldElement" where
  "trace_at i r = bindE r (\<lambda>trace. Inr (trace ! i))"

text \<open>A list in which every element is the transition of the one before it.\<close>

definition is_chain :: "FieldElement list \<Rightarrow> bool" where
  "is_chain trace \<longleftrightarrow> (\<forall>j. j + 1 < length trace \<longrightarrow> authHash (trace ! j) = Inr (trace ! (j + 1)))"

text \<open>The checks one iteration of the verifier's loop makes on an index and its opening.\<close>

definition opening_ok :: "hashfn \<Rightarrow> Statement \<Rightarrow> int \<Rightarrow> bytes \<Rightarrow> int \<Rightarrow> AuthOpening \<Rightarrow> bool" where
  "opening_ok H st n rt idx opn \<longleftrightarrow>
     index opn = idx \<and> 0 \<le> idx \<and> idx < n - 1
     \<and> MerkleProof.root (proofCurrent opn) = rt \<and> MerkleProof.root (proofNext opn) = rt
     \<and> MerkleProof_verify H (proofCurrent opn) \<and> MerkleProof_verify H (proofNext opn)
     \<and> authHash (current opn) = Inr (next opn)
     \<and> (if idx = n - 2 then next opn = finalHash st else True)"


text \<open>
  A proof that no prover run produced, for the chain of 2 steps ending in 132 = 5^3 + 7:
  one opening of the transition from 5 to 132, whose two Merkle proofs have no siblings
  and the root itself as their leaf.
\<close>

definition forged_opening :: "bytes \<Rightarrow> AuthOpening" where
  "forged_opening rt =
     \<lparr>index = 0,
      current = \<lparr>value = 5, modulus = STARK_PRIME\<rparr>,
      next = \<lparr>value = 132, modulus = STARK_PRIME\<rparr>,
      proofCurrent = \<lparr>leaf = rt, proof = [], root = rt\<rparr>,
      proofNext = \<lparr>leaf = rt, proof = [], root = rt\<rparr>\<rparr>"

definition forged_proof :: "bytes \<Rightarrow> Proof" where
  "forged_proof rt = \<lparr>root = rt, indices = [0], openings = [forged_opening rt]\<rparr>"

definition forged_statement :: Statement where
  "forged_statement = \<lparr>Statement.steps = 2, finalHash = \<lparr>value = 132, modulus = STARK_PRIME\<rparr>\<rparr>"

definition forged_params :: AuthParams where
  "forged_params = \<lparr>AuthParams.steps = 2, queries = 1\<rparr>"

chapter \<open>Properties\<close>

section \<open>Field arithmetic\<close>

lemma bindE_simps [simp]:
  "bindE (Inl e) f = Inl e"
  "bindE (Inr x) f = f x"
  by (simp_all add: bindE_def)

lemma mod_fe_pos: "0 < m \<Longrightarrow> mod_fe m n = n mod m"
proof -
  assume m: "0 < m"
  have eq: "n smod m = n mod m - m * of_bool (sgn n \<noteq> sgn m \<and> \<not> m dvd n)"
    by (rule signed_modulo_int_eq_modulo_int)
  have nonneg: "0 \<le> n mod m" and less: "n mod m < m"
    using m by simp_all
  show ?thesis
  proof (cases "sgn n \<noteq> sgn m \<and> \<not> m dvd n")
    case True
    then have "n smod m = n mod m - m" using eq by simp
    with less show ?thesis by (simp add: mod_fe_def Let_def)
  next
    case False
    then have "n smod m = n mod m" using eq by auto
    with nonneg show ?thesis by (simp add: mod_fe_def Let_def)
  qed
qed

lemma new_FieldElement_pos:
  "0 < m \<Longrightarrow> new_FieldElement v m = Inr \<lparr>value = v mod m, modulus = m\<rparr>"
  by (simp add: new_FieldElement_def mod_fe_pos)

lemma sdiv_nonneg: "0 \<le> a \<Longrightarrow> 0 < b \<Longrightarrow> a sdiv b = a div (b::int)"
  by (simp add: signed_divide_int_def sgn_if)

lemma extendedGcd_loop_correct:
  "0 \<le> oldR \<Longrightarrow> 0 \<le> r \<Longrightarrow> extendedGcd_loop oldR r oldS s = (g, x) \<Longrightarrow>
   b dvd (oldS * a - oldR) \<Longrightarrow> b dvd (s * a - r) \<Longrightarrow>
   g = gcd oldR r \<and> b dvd (x * a - g)"
proof (induction oldR r oldS s rule: extendedGcd_loop.induct)
  case (1 oldR r oldS s)
  show ?case
  proof (cases "r = 0")
    case True
    with "1.prems" show ?thesis by (simp add: extendedGcd_loop.simps[of oldR 0])
  next
    case False
    with "1.prems" have rpos: "0 < r" by simp
    define q where "q = oldR sdiv r"
    have q: "q = oldR div r" using "1.prems"(1) rpos by (simp add: q_def sdiv_nonneg)
    have rem: "oldR - q * r = oldR mod r"
      by (simp add: q minus_div_mult_eq_mod)
    have step: "extendedGcd_loop r (oldR - q * r) s (oldS - q * s) = (g, x)"
      using "1.prems"(3) False by (simp add: q_def Let_def extendedGcd_loop.simps[of oldR r])
    have nonneg: "0 \<le> oldR - q * r" using rpos by (simp add: rem)
    have e: "(oldS - q * s) * a - (oldR - q * r) = (oldS * a - oldR) - q * (s * a - r)"
      by (simp add: algebra_simps)
    have "b dvd ((oldS * a - oldR) - q * (s * a - r))"
      using "1.prems"(4,5) by (blast intro: dvd_diff dvd_mult)
    then have d: "b dvd ((oldS - q * s) * a - (oldR - q * r))"
      by (simp only: e)
    have "g = gcd r (oldR - q * r) \<and> b dvd (x * a - g)"
      by (rule "1.IH"[OF False q_def "1.prems"(2) nonneg step "1.prems"(5) d])
    moreover have "gcd r (oldR - q * r) = gcd oldR r"
      using gcd_red_int[of oldR r] by (simp only: rem)
    ultimately show ?thesis by metis
  qed
qed

lemma is_prime_coprime:
  assumes "is_prime p" "0 < v" "v < p"
  shows "gcd v p = 1"
proof -
  let ?g = "gcd v p"
  have gp: "?g dvd p" and gv: "?g dvd v" by simp_all
  have "0 < ?g" using assms(2) by (simp add: gcd_pos_int)
  have "?g \<le> v" using gv assms(2) by (simp add: zdvd_imp_le)
  then have "?g < p" using assms(3) by simp
  show ?thesis
  proof (rule ccontr)
    assume "?g \<noteq> 1"
    with \<open>0 < ?g\<close> have "2 \<le> ?g" by linarith
    with \<open>?g < p\<close> have "?g \<in> {2..<p}" by simp
    with assms(1) have "\<not> ?g dvd p" unfolding is_prime_def by blast
    with gp show False by simp
  qed
qed

lemma inverse_fe_prime:
  assumes "is_prime (modulus a)" "0 < value a" "value a < modulus a"
  shows "\<exists>x. inverse_fe a = Inr \<lparr>value = x mod modulus a, modulus = modulus a\<rparr>
           \<and> modulus a dvd (x * value a - 1)"
proof -
  let ?p = "modulus a" and ?v = "value a"
  have p: "0 < ?p" using assms by simp
  obtain g x where gx: "extendedGcd_loop ?v ?p 1 0 = (g, x)" by (cases "extendedGcd_loop ?v ?p 1 0")
  have gd: "g = gcd ?v ?p \<and> ?p dvd (x * ?v - g)"
  proof (rule extendedGcd_loop_correct[OF _ _ gx])
    show "0 \<le> ?v" using assms by simp
    show "0 \<le> ?p" using p by simp
    show "?p dvd 1 * ?v - ?v" by simp
    show "?p dvd 0 * ?v - ?p" by simp
  qed
  have g: "g = 1" using gd is_prime_coprime[OF assms] by (simp only:)
  have d: "?p dvd (x * ?v - 1)" using gd unfolding g by (rule conjunct2)
  have "inverse_fe a = Inr \<lparr>value = x mod ?p, modulus = ?p\<rparr>"
    using assms p gx g by (simp add: inverse_fe_def extendedGcd_def new_FieldElement_pos)
  with d show ?thesis by blast
qed

text \<open>
  Claim C8. For a field element \<open>a\<close> over a prime modulus, with its value canonical in
  \<open>[0, modulus)\<close>: if the value is not 0, \<open>a.inverse()\<close> returns, and \<open>a.mul(a.inverse())\<close>
  equals the multiplicative identity \<open>FieldElement.one(modulus)\<close>, whose value is 1; if the
  value is 0, \<open>a.inverse()\<close> throws 'Cannot invert zero' (DivisionByZero).
\<close>

theorem inverse_correct:
  assumes "is_prime (modulus a)" and "0 \<le> value a" and "value a < modulus a"
  shows "(value a \<noteq> 0 \<longrightarrow>
           (\<exists>inv prod. inverse_fe a = Inr inv \<and> mul a inv = Inr prod
              \<and> one_fe (modulus a) = Inr \<lparr>value = 1, modulus = modulus a\<rparr>
              \<and> equals prod \<lparr>value = 1, modulus = modulus a\<rparr>))
       \<and> (value a = 0 \<longrightarrow> inverse_fe a = Inl DivisionByZero)"
proof (intro conjI impI)
  assume nz: "value a \<noteq> 0"
  let ?p = "modulus a" and ?v = "value a"
  have p: "1 < ?p" using assms(1) by (simp add: is_prime_def)
  from nz assms(2) have pos: "0 < ?v" by simp
  from inverse_fe_prime[OF assms(1) pos assms(3)] obtain x where
    inv: "inverse_fe a = Inr \<lparr>value = x mod ?p, modulus = ?p\<rparr>" and d: "?p dvd (x * ?v - 1)"
    by blast
  have "(?v * (x mod ?p)) mod ?p = (x * ?v) mod ?p"
    by (simp add: mod_mult_right_eq mult.commute)
  also have "\<dots> = 1 mod ?p"
    using d by (simp add: mod_eq_dvd_iff)
  also have "\<dots> = 1" using p by simp
  finally have v: "(?v * (x mod ?p)) mod ?p = 1" .
  have m: "mul a \<lparr>value = x mod ?p, modulus = ?p\<rparr> = Inr \<lparr>value = 1, modulus = ?p\<rparr>"
    using p v by (simp add: mul_def ensureSameField_def new_FieldElement_pos)
  have one: "one_fe ?p = Inr \<lparr>value = 1, modulus = ?p\<rparr>"
    using p by (simp add: one_fe_def new_FieldElement_pos)
  show "\<exists>inv prod. inverse_fe a = Inr inv \<and> mul a inv = Inr prod
              \<and> one_fe ?p = Inr \<lparr>value = 1, modulus = ?p\<rparr>
              \<and> equals prod \<lparr>value = 1, modulus = ?p\<rparr>"
    using inv m one by (simp add: equals_def)
next
  assume "value a = 0"
  then show "inverse_fe a = Inl DivisionByZero" by (simp add: inverse_fe_def)
qed

text \<open>The theorem at 3 in the field of 7 elements, and at 0.\<close>

lemma is_prime_7: "is_prime 7"
  by (simp add: is_prime_def) code_simp

theorem inverse_correct_witness:
  "inverse_fe \<lparr>value = 3, modulus = 7\<rparr> = Inr \<lparr>value = 5, modulus = 7\<rparr>
   \<and> mul \<lparr>value = 3, modulus = 7\<rparr> \<lparr>value = 5, modulus = 7\<rparr> = Inr \<lparr>value = 1, modulus = 7\<rparr>
   \<and> inverse_fe \<lparr>value = 0, modulus = 7\<rparr> = Inl DivisionByZero"
proof -
  have p: "is_prime (modulus \<lparr>value = 3, modulus = 7\<rparr>)"
    and p0: "is_prime (modulus \<lparr>value = 0, modulus = 7\<rparr>)" by (simp_all add: is_prime_7)
  have i: "inverse_fe \<lparr>value = 3, modulus = 7\<rparr> = Inr \<lparr>value = 5, modulus = 7\<rparr>"
    by code_simp
  from inverse_correct[OF p] inverse_correct[OF p0] i show ?thesis
    by (auto simp: equals_def)
qed

section \<open>The 32-byte encoding\<close>

lemma shift_or_byte: "(push_bit 8 v) OR uint (b::byte) = v * 256 + uint b"
proof -
  have "take_bit 8 (uint b) = uint b"
    by (rule take_bit_int_eq_self) (use uint_lt2p[of b] in simp_all)
  then have "(push_bit 8 v) OR uint b = concat_bit 8 (uint b) v"
    by (simp add: concat_bit_def or.commute)
  also have "\<dots> = take_bit 8 (uint b) + push_bit 8 v" by (rule concat_bit_eq)
  finally show ?thesis
    using \<open>take_bit 8 (uint b) = uint b\<close> by (simp add: push_bit_eq_mult)
qed

lemma fromBytes_fold: "foldl (\<lambda>v b. (push_bit 8 v) OR uint (b::byte)) a bs = foldl (\<lambda>v b. v * 256 + uint b) a bs"
  by (simp add: shift_or_byte)

lemma STARK_PRIME_pos: "0 < STARK_PRIME"
  by (simp add: STARK_PRIME_def)

lemma fieldElementFromBytes_eq:
  "length bs = 32 \<Longrightarrow>
   fieldElementFromBytes bs = Inr \<lparr>value = bytes_to_int bs mod STARK_PRIME, modulus = STARK_PRIME\<rparr>"
  by (simp add: fieldElementFromBytes_def fromBytes_fold bytes_to_int_def
      new_FieldElement_pos[OF STARK_PRIME_pos])

lemma fieldElementFromBytes_InvalidLength:
  "length bs \<noteq> 32 \<Longrightarrow> fieldElementFromBytes bs = Inl InvalidLength"
  by (simp add: fieldElementFromBytes_def)

subsection \<open>Hexadecimal digits\<close>

lemma hex_digit_is_hex:
  assumes "0 \<le> d" "d < 16"
  shows "digit_val (hex_digit d) = Some (nat d)" and "is_hex (hex_digit d)"
proof -
  from assms have d: "d = 0 \<or> d = 1 \<or> d = 2 \<or> d = 3 \<or> d = 4 \<or> d = 5 \<or> d = 6 \<or> d = 7
      \<or> d = 8 \<or> d = 9 \<or> d = 10 \<or> d = 11 \<or> d = 12 \<or> d = 13 \<or> d = 14 \<or> d = 15"
    by presburger
  then show "digit_val (hex_digit d) = Some (nat d)"
    by (elim disjE) (simp_all add: hex_digit_def digit_val_def)
  from d show "is_hex (hex_digit d)"
    by (elim disjE) (simp_all add: hex_digit_def digit_val_def is_hex_def)
qed

lemma hexacc_append: "hexacc a (s @ t) = hexacc (hexacc a s) t"
  by (simp add: hexacc_def)

lemma to_hex_props:
  "0 \<le> n \<Longrightarrow> list_all is_hex (to_hex n) \<and> hexacc 0 (to_hex n) = n"
proof (induction n rule: to_hex.induct)
  case (1 n)
  show ?case
  proof (cases "n < 16")
    case True
    with "1.prems" hex_digit_is_hex[of n] show ?thesis
      by (simp add: hexacc_def to_hex.simps[of n])
  next
    case False
    then have ih: "list_all is_hex (to_hex (n div 16)) \<and> hexacc 0 (to_hex (n div 16)) = n div 16"
      using "1.IH" "1.prems" by simp
    have m: "0 \<le> n mod 16" "n mod 16 < 16" by simp_all
    have unf: "to_hex n = to_hex (n div 16) @ [hex_digit (n mod 16)]"
      using False by (subst to_hex.simps) simp
    have "hexacc 0 (to_hex n) = 16 * (n div 16) + n mod 16"
      using ih hex_digit_is_hex(1)[OF m] m(1) unfolding unf hexacc_append
      by (simp add: hexacc_def)
    then show ?thesis
      using ih hex_digit_is_hex(2)[OF m] unfolding unf by simp
  qed
qed

lemma to_hex_length: "0 \<le> n \<Longrightarrow> n < 16 ^ k \<Longrightarrow> 0 < k \<Longrightarrow> length (to_hex n) \<le> k"
proof (induction n arbitrary: k rule: to_hex.induct)
  case (1 n)
  show ?case
  proof (cases "n < 16")
    case True
    with "1.prems" show ?thesis by (simp add: to_hex.simps[of n])
  next
    case False
    obtain j where k: "k = Suc j" using "1.prems"(3) by (cases k) auto
    have "j \<noteq> 0"
    proof
      assume "j = 0"
      with k "1.prems"(2) have "n < 16" by simp
      with False show False by simp
    qed
    have "n div 16 < 16 ^ j" using "1.prems"(2) k by (simp add: div_less_iff_less_mult algebra_simps)
    then have "length (to_hex (n div 16)) \<le> j"
      using "1.IH"[of j] False "1.prems"(1) \<open>j \<noteq> 0\<close> by simp
    moreover have "to_hex n = to_hex (n div 16) @ [hex_digit (n mod 16)]"
      using False by (subst to_hex.simps) simp
    ultimately show ?thesis by (simp add: k)
  qed
qed

lemma is_hex_0: "is_hex CHR ''0''"
  by (simp add: is_hex_def digit_val_def)

lemma hexacc_zeros: "hexacc 0 (replicate k CHR ''0'' @ s) = hexacc 0 s"
  by (induction k) (simp_all add: hexacc_def digit_val_def)

lemma parseInt16_pair:
  assumes "is_hex c1" "is_hex c2"
  shows "parseInt16 [c1, c2] = Some (16 * int (the (digit_val c1)) + int (the (digit_val c2)))"
proof -
  have c1: "c1 \<noteq> CHR ''-''" "c1 \<noteq> CHR ''+''" "digit_val c1 \<noteq> None"
    and c2: "c2 \<noteq> CHR ''x''" "c2 \<noteq> CHR ''X''" "digit_val c2 \<noteq> None"
    using assms by (auto simp: is_hex_def)
  show ?thesis
    unfolding parseInt16_def using c1 c2 by (simp add: Let_def)
qed

lemma toUint8_pair:
  assumes "is_hex c1" "is_hex c2"
  shows "uint (toUint8 (parseInt16 [c1, c2])) = 16 * int (the (digit_val c1)) + int (the (digit_val c2))"
proof -
  from assms obtain d1 d2 where d: "digit_val c1 = Some d1" "d1 < 16" "digit_val c2 = Some d2" "d2 < 16"
    by (auto simp: is_hex_def)
  then have "16 * int d1 + int d2 < 256" "0 \<le> 16 * int d1 + int d2" by simp_all
  then have m: "(16 * int d1 + int d2) mod 2 ^ LENGTH(8) = 16 * int d1 + int d2" by simp
  have "uint (word_of_int (16 * int d1 + int d2) :: byte) = (16 * int d1 + int d2) mod 2 ^ LENGTH(8)"
    by (rule uint_word_of_int)
  then have "uint (word_of_int (16 * int d1 + int d2) :: byte) = 16 * int d1 + int d2"
    by (simp only: m)
  moreover have "toUint8 (parseInt16 [c1, c2]) = word_of_int (16 * int d1 + int d2)"
    unfolding parseInt16_pair[OF assms] toUint8_def using d by (simp del: of_int_add of_int_mult)
  ultimately show ?thesis using d by (simp only: option.sel)
qed

lemma bytes_of_hex:
  "length s = 2 * n \<Longrightarrow> list_all is_hex s \<Longrightarrow>
   foldl (\<lambda>v b. v * 256 + uint b) a
     (map (\<lambda>i. toUint8 (parseInt16 (slice_str s (i * 2) (i * 2 + 2)))) [0..<n]) = hexacc a s"
proof (induction n arbitrary: s a)
  case 0
  then show ?case by (simp add: hexacc_def)
next
  case (Suc n)
  then obtain c1 c2 s' where s: "s = c1 # c2 # s'"
    by (cases s; cases "tl s") auto
  have len: "length s' = 2 * n" and hex: "is_hex c1" "is_hex c2" "list_all is_hex s'"
    using Suc.prems by (simp_all add: s)
  have sl: "\<And>i. slice_str s (Suc i * 2) (Suc i * 2 + 2) = slice_str s' (i * 2) (i * 2 + 2)"
    by (simp add: slice_str_def s)
  have s0: "slice_str s (0 * 2) (0 * 2 + 2) = [c1, c2]"
    by (simp add: slice_str_def s)
  have "map (\<lambda>i. toUint8 (parseInt16 (slice_str s (i * 2) (i * 2 + 2)))) [0..<Suc n]
      = toUint8 (parseInt16 [c1, c2]) #
        map (\<lambda>i. toUint8 (parseInt16 (slice_str s' (i * 2) (i * 2 + 2)))) [0..<n]"
    unfolding map_upt_Suc sl s0 ..
  then show ?case
    using Suc.IH[OF len hex(3)] toUint8_pair[OF hex(1,2)]
    by (simp add: s hexacc_def algebra_simps)
qed

lemma fieldElementToBytes_length [simp]: "length (fieldElementToBytes fe) = 32"
  by (simp add: fieldElementToBytes_def Let_def)

lemma bytes_to_int_toBytes:
  assumes "0 \<le> value a" "value a < 16 ^ 64"
  shows "bytes_to_int (fieldElementToBytes a) = value a"
proof -
  let ?h = "to_hex (value a)"
  let ?hex = "padStart 64 (CHR ''0'') (toString16 (value a))"
  have l: "length ?h \<le> 64" using to_hex_length[OF assms] by simp
  have hex: "?hex = replicate (64 - length ?h) CHR ''0'' @ ?h"
    using assms(1) by (simp add: padStart_def toString16_def)
  have len: "length ?hex = 2 * 32" using l by (simp add: hex)
  have all: "list_all is_hex ?hex"
    using to_hex_props[OF assms(1)] by (auto simp add: hex list_all_iff is_hex_0)
  have "bytes_to_int (fieldElementToBytes a) = hexacc 0 ?hex"
    using bytes_of_hex[OF len all, of 0] by (simp add: bytes_to_int_def fieldElementToBytes_def Let_def)
  also have "\<dots> = value a"
    using to_hex_props[OF assms(1)] by (simp add: hex hexacc_zeros)
  finally show ?thesis .
qed

lemma STARK_PRIME_less: "STARK_PRIME < 16 ^ 64"
  by (simp add: STARK_PRIME_def)

text \<open>
  Claim C9. For a field element \<open>a\<close> over \<open>STARK_PRIME\<close> with its value canonical in
  \<open>[0, P)\<close>, \<open>fieldElementFromBytes(fieldElementToBytes(a))\<close> returns \<open>a\<close>; and
  \<open>fieldElementFromBytes\<close> throws 'Expected 32 bytes for field element' (InvalidLength)
  on every input that is not exactly 32 bytes long.
\<close>

theorem encode_decode_roundtrip:
  "(modulus a = STARK_PRIME \<and> 0 \<le> value a \<and> value a < STARK_PRIME
      \<longrightarrow> fieldElementFromBytes (fieldElementToBytes a) = Inr a)
   \<and> (length bs \<noteq> 32 \<longrightarrow> fieldElementFromBytes bs = Inl InvalidLength)"
proof (intro conjI impI)
  assume h: "modulus a = STARK_PRIME \<and> 0 \<le> value a \<and> value a < STARK_PRIME"
  then have "bytes_to_int (fieldElementToBytes a) = value a"
    using bytes_to_int_toBytes[of a] STARK_PRIME_less by simp
  then have "fieldElementFromBytes (fieldElementToBytes a)
      = Inr \<lparr>value = value a mod STARK_PRIME, modulus = STARK_PRIME\<rparr>"
    by (simp add: fieldElementFromBytes_eq)
  also have "\<dots> = Inr a" using h by simp
  finally show "fieldElementFromBytes (fieldElementToBytes a) = Inr a" .
next
  assume "length bs \<noteq> 32"
  then show "fieldElementFromBytes bs = Inl InvalidLength"
    by (rule fieldElementFromBytes_InvalidLength)
qed

theorem encode_decode_roundtrip_witness:
  "fieldElementFromBytes (fieldElementToBytes \<lparr>value = 123456789, modulus = STARK_PRIME\<rparr>)
     = Inr \<lparr>value = 123456789, modulus = STARK_PRIME\<rparr>
   \<and> fieldElementFromBytes [1, 2, 3] = Inl InvalidLength"
proof -
  have "(0::int) \<le> 123456789 \<and> (123456789::int) < STARK_PRIME"
    by (simp add: STARK_PRIME_def)
  then show ?thesis
    using encode_decode_roundtrip[of "\<lparr>value = 123456789, modulus = STARK_PRIME\<rparr>" "[1, 2, 3]"]
    by simp
qed

text \<open>
  Claim C10. On a 32-byte input whose big-endian value \<open>v\<close> is at least \<open>STARK_PRIME\<close>,
  \<open>fieldElementFromBytes\<close> does not throw: it returns the field element of value
  \<open>v mod STARK_PRIME\<close>, which differs from \<open>v\<close> (the encoding is reduced, not rejected).
\<close>

theorem fromBytes_reduces:
  assumes "length bs = 32" and "STARK_PRIME \<le> bytes_to_int bs"
  shows "fieldElementFromBytes bs
       = Inr \<lparr>value = bytes_to_int bs mod STARK_PRIME, modulus = STARK_PRIME\<rparr>
     \<and> bytes_to_int bs mod STARK_PRIME \<noteq> bytes_to_int bs"
proof -
  have "bytes_to_int bs mod STARK_PRIME < STARK_PRIME"
    using STARK_PRIME_pos by simp
  with assms(2) have "bytes_to_int bs mod STARK_PRIME \<noteq> bytes_to_int bs" by linarith
  with fieldElementFromBytes_eq[OF assms(1)] show ?thesis by simp
qed

text \<open>The theorem at the 32 bytes \<open>0xff\<close>, the value \<open>2^256 - 1\<close>.\<close>

lemma bytes_to_int_ff: "bytes_to_int (replicate 32 255) = 2 ^ 256 - 1"
  by code_simp

theorem fromBytes_reduces_witness:
  "fieldElementFromBytes (replicate 32 255)
     = Inr \<lparr>value = (2 ^ 256 - 1) mod STARK_PRIME, modulus = STARK_PRIME\<rparr>
   \<and> (2 ^ 256 - 1) mod STARK_PRIME \<noteq> (2 ^ 256 - 1 :: int)"
proof -
  have l: "length (replicate 32 (255::byte)) = 32" by simp
  have g: "STARK_PRIME \<le> bytes_to_int (replicate 32 255)"
    unfolding bytes_to_int_ff by (simp add: STARK_PRIME_def)
  from fromBytes_reduces[OF l g] show ?thesis
    unfolding bytes_to_int_ff .
qed

section \<open>Merkle trees\<close>

lemma arraysEqual_iff: "arraysEqual a b \<longleftrightarrow> a = b"
proof (cases "length a = length b")
  case True
  have "list_all (\<lambda>i. a ! i = b ! i) [0..<length a] \<longleftrightarrow> (\<forall>i<length a. a ! i = b ! i)"
    by (simp add: list_all_iff Ball_def)
  also have "\<dots> \<longleftrightarrow> a = b"
    using True list_eq_iff_nth_eq[of a b] by blast
  finally show ?thesis using True by (simp add: arraysEqual_def)
next
  case False
  then have "a \<noteq> b" by blast
  with False show ?thesis by (simp add: arraysEqual_def)
qed

lemma next_layer_nth_SS:
  assumes "next_layer H rest ! (k div 2) =
     (if k mod 2 = 1 then H (rest ! (k - 1) @ rest ! k)
      else if k + 1 < length rest then H (rest ! k @ rest ! (k + 1))
      else rest ! k)"
  shows "next_layer H (a # b # rest) ! (Suc (Suc k) div 2) =
     (if Suc (Suc k) mod 2 = 1 then H ((a # b # rest) ! (Suc (Suc k) - 1) @ (a # b # rest) ! Suc (Suc k))
      else if Suc (Suc k) + 1 < length (a # b # rest)
           then H ((a # b # rest) ! Suc (Suc k) @ (a # b # rest) ! (Suc (Suc k) + 1))
      else (a # b # rest) ! Suc (Suc k))"
proof -
  have l: "next_layer H (a # b # rest) ! (Suc (Suc k) div 2) = next_layer H rest ! (k div 2)"
    by simp
  have m: "Suc (Suc k) mod 2 = k mod 2" by simp
  show ?thesis
  proof (cases "k mod 2 = 1")
    case True
    then obtain j where j: "k = Suc j" by (cases k) auto
    have "(a # b # rest) ! (Suc (Suc k) - 1) = rest ! (k - 1)"
      by (simp add: j)
    then show ?thesis
      unfolding l m assms using True by simp
  next
    case False
    then show ?thesis
      unfolding l m assms by simp
  qed
qed

lemma next_layer_nth:
  "idx < length l \<Longrightarrow>
   next_layer H l ! (idx div 2) =
     (if idx mod 2 = 1 then H (l ! (idx - 1) @ l ! idx)
      else if idx + 1 < length l then H (l ! idx @ l ! (idx + 1))
      else l ! idx)"
proof (induction H l arbitrary: idx rule: next_layer.induct)
  case (1 H a b rest)
  show ?case
  proof (cases idx)
    case 0
    then show ?thesis by simp
  next
    case (Suc j)
    show ?thesis
    proof (cases j)
      case 0
      with Suc show ?thesis by simp
    next
      case (Suc k)
      have k: "k < length rest" using "1.prems" \<open>idx = Suc j\<close> Suc by simp
      show ?thesis
        unfolding \<open>idx = Suc j\<close> Suc
        by (rule next_layer_nth_SS[OF "1.IH"[OF k]])
    qed
  qed
next
  case (2 H a)
  then show ?case by simp
next
  case (3 H)
  then show ?case by simp
qed

lemma buildTree_loop_inv:
  "buildTree_loop H cur lays = (lays', cur') \<Longrightarrow> layers_ok H lays \<Longrightarrow> last lays = cur \<Longrightarrow>
   cur \<noteq> [] \<Longrightarrow>
   layers_ok H lays' \<and> last lays' = cur' \<and> length cur' = 1 \<and> lays' ! 0 = lays ! 0"
proof (induction H cur lays rule: buildTree_loop.induct)
  case (1 H cur lays)
  show ?case
  proof (cases "length cur > 1")
    case True
    let ?n = "next_layer H cur"
    have step: "buildTree_loop H ?n (lays @ [?n]) = (lays', cur')"
      using "1.prems"(1) True by (simp add: buildTree_loop.simps[of H cur] Let_def)
    have ne: "lays \<noteq> []" using "1.prems"(2) by (simp add: layers_ok_def)
    have ok: "layers_ok H (lays @ [?n])"
      unfolding layers_ok_def
    proof (intro conjI allI impI)
      show "lays @ [?n] \<noteq> []" by simp
    next
      fix i assume i: "i + 1 < length (lays @ [?n])"
      show "(lays @ [?n]) ! (i + 1) = next_layer H ((lays @ [?n]) ! i)"
      proof (cases "i + 1 < length lays")
        case True
        then show ?thesis using "1.prems"(2) by (simp add: layers_ok_def nth_append)
      next
        case False
        with i have e: "i + 1 = length lays" by simp
        then have "i = length lays - 1" by simp
        then have "lays ! i = last lays" using ne by (simp add: last_conv_nth)
        then show ?thesis using e "1.prems"(3) by (simp add: nth_append)
      qed
      show "1 < length ((lays @ [?n]) ! i)"
      proof (cases "i + 1 < length lays")
        case True
        then show ?thesis using "1.prems"(2) by (simp add: layers_ok_def nth_append)
      next
        case False
        with i have e: "i + 1 = length lays" by simp
        then have "i = length lays - 1" by simp
        then have "lays ! i = last lays" using ne by (simp add: last_conv_nth)
        then show ?thesis using e "1.prems"(3) \<open>length cur > 1\<close> by (simp add: nth_append)
      qed
    qed
    have nne: "?n \<noteq> []" using True length_next_layer[of H cur] by (cases "?n") auto
    have "layers_ok H lays' \<and> last lays' = cur' \<and> length cur' = 1 \<and> lays' ! 0 = (lays @ [?n]) ! 0"
      using "1.IH"[OF True refl step ok _ nne] by simp
    then show ?thesis using ne by (simp add: nth_append)
  next
    case False
    then have "buildTree_loop H cur lays = (lays, cur)"
      by (simp add: buildTree_loop.simps[of H cur])
    moreover have "length cur = 1" using False "1.prems"(4) by (cases cur) simp_all
    ultimately show ?thesis using "1.prems"(1,2,3) by simp
  qed
qed

lemma getProof_loop_step:
  "i < length lays - 1 \<Longrightarrow>
   getProof_loop lays i idx acc = getProof_loop lays (i + 1) (idx div 2) (acc @ sibling_node lays i idx)"
  by (subst getProof_loop.simps) (simp add: Let_def sibling_node_def)

lemma getProof_loop_done:
  "\<not> i < length lays - 1 \<Longrightarrow> getProof_loop lays i idx acc = acc"
  by (subst getProof_loop.simps) simp

lemma getProof_loop_acc:
  "getProof_loop lays i idx acc = acc @ getProof_loop lays i idx []"
proof (induction "length lays - 1 - i" arbitrary: i idx acc)
  case 0
  then have "\<not> i < length lays - 1" by simp
  then show ?case by (simp add: getProof_loop_done)
next
  case (Suc n)
  then have i: "i < length lays - 1" and n: "n = length lays - 1 - (i + 1)" by simp_all
  have "getProof_loop lays i idx acc
      = (acc @ sibling_node lays i idx) @ getProof_loop lays (i + 1) (idx div 2) []"
    unfolding getProof_loop_step[OF i] by (rule Suc.hyps(1)[OF n])
  moreover have "getProof_loop lays i idx []
      = ([] @ sibling_node lays i idx) @ getProof_loop lays (i + 1) (idx div 2) []"
    unfolding getProof_loop_step[OF i] by (rule Suc.hyps(1)[OF n])
  ultimately show ?case by simp
qed

lemma merkle_chain:
  "layers_ok H lays \<Longrightarrow> length (last lays) = 1 \<Longrightarrow> i < length lays \<Longrightarrow>
   idx < length (lays ! i) \<Longrightarrow>
   foldl (verify_step H) (lays ! i ! idx) (getProof_loop lays i idx []) = last lays ! 0"
proof (induction "length lays - 1 - i" arbitrary: i idx)
  case 0
  then have e: "i = length lays - 1" and d: "\<not> i < length lays - 1" by simp_all
  have "lays ! i = last lays" using "0.prems" e by (simp add: last_conv_nth layers_ok_def)
  moreover from this "0.prems" have "idx = 0" by simp
  ultimately show ?case
    by (simp add: getProof_loop_done[OF d])
next
  case (Suc n)
  then have i: "i < length lays - 1" and n: "n = length lays - 1 - (i + 1)" by simp_all
  let ?layer = "lays ! i" and ?next = "lays ! (i + 1)"
  have nx: "?next = next_layer H ?layer"
    using Suc.prems(1) i by (simp add: layers_ok_def)
  have idx2: "idx div 2 < length ?next"
    using Suc.prems(4) unfolding nx length_next_layer by linarith
  have i1: "i + 1 < length lays" using i by simp
  have ih: "foldl (verify_step H) (?next ! (idx div 2)) (getProof_loop lays (i + 1) (idx div 2) [])
      = last lays ! 0"
    by (rule Suc.hyps(1)[OF n Suc.prems(1,2) i1 idx2])
  have unf: "getProof_loop lays i idx [] =
      sibling_node lays i idx @ getProof_loop lays (i + 1) (idx div 2) []"
    unfolding getProof_loop_step[OF i] by (subst getProof_loop_acc) simp
  have first: "foldl (verify_step H) (?layer ! idx) (sibling_node lays i idx) = ?next ! (idx div 2)"
    unfolding nx next_layer_nth[OF Suc.prems(4)]
    using Suc.prems(4) by (auto simp: verify_step_def sibling_node_def Let_def)
  show ?case
    unfolding unf foldl_append first by (rule ih)
qed

lemma new_MerkleTree_props:
  assumes "lvs \<noteq> []"
  shows "\<exists>tree. new_MerkleTree H lvs = Inr tree \<and> leaves tree = lvs
     \<and> layers_ok H (layers tree) \<and> length (last (layers tree)) = 1
     \<and> layers tree ! 0 = lvs \<and> MerkleTree.root tree = last (layers tree) ! 0"
proof -
  obtain lays cur where b: "buildTree_loop H lvs [lvs] = (lays, cur)"
    by (cases "buildTree_loop H lvs [lvs]")
  have ok0: "layers_ok H [lvs]" by (simp add: layers_ok_def)
  from buildTree_loop_inv[OF b ok0 _ assms]
  have "layers_ok H lays \<and> last lays = cur \<and> length cur = 1 \<and> lays ! 0 = lvs" by simp
  then show ?thesis using assms b by (simp add: new_MerkleTree_def)
qed

lemma getProof_verifies:
  assumes t: "new_MerkleTree H lvs = Inr tree" and i: "0 \<le> i" "i < int (length lvs)"
  shows "\<exists>p. getProof tree i = Inr p \<and> MerkleProof_verify H p
     \<and> MerkleProof.root p = MerkleTree.root tree \<and> leaf p = lvs ! nat i"
proof -
  have ne: "lvs \<noteq> []" using i by auto
  from new_MerkleTree_props[OF ne, of H] t
  have tr: "leaves tree = lvs" "layers_ok H (layers tree)" "length (last (layers tree)) = 1"
    "layers tree ! 0 = lvs" "MerkleTree.root tree = last (layers tree) ! 0"
    by auto
  have l0: "0 < length (layers tree)" using tr(2) by (simp add: layers_ok_def)
  have ix: "nat i < length (layers tree ! 0)" using i tr(4) by simp
  have "foldl (verify_step H) (layers tree ! 0 ! nat i) (getProof_loop (layers tree) 0 (nat i) [])
     = last (layers tree) ! 0"
    by (rule merkle_chain[OF tr(2,3) l0 ix])
  then show ?thesis
    using i tr by (simp add: getProof_def MerkleProof_verify_def arraysEqual_iff)
qed

text \<open>
  Claim C6. For every non-empty list of leaves and every index \<open>i\<close> with
  \<open>0 \<le> i < number of leaves\<close>, and for any hash function: the tree is built, \<open>getProof(i)\<close>
  returns a proof for leaf \<open>i\<close> and the tree's root, and \<open>verify()\<close> on that proof returns
  true.
\<close>

theorem merkle_roundtrip:
  assumes "lvs \<noteq> []" and "0 \<le> i" and "i < int (length lvs)"
  shows "\<exists>tree p. new_MerkleTree H lvs = Inr tree \<and> getProof tree i = Inr p
           \<and> MerkleProof_verify H p
           \<and> MerkleProof.root p = getRoot tree \<and> leaf p = lvs ! nat i"
proof -
  from new_MerkleTree_props[OF assms(1), of H] obtain tree where
    t: "new_MerkleTree H lvs = Inr tree" by blast
  from getProof_verifies[OF t assms(2,3)] t show ?thesis
    unfolding getRoot_def by blast
qed

text \<open>The theorem at the third of three one-byte leaves, for every hash function.\<close>

theorem merkle_roundtrip_witness:
  "\<forall>H. \<exists>tree p. new_MerkleTree H [[1], [2], [3]] = Inr tree \<and> getProof tree 2 = Inr p
         \<and> MerkleProof_verify H p \<and> MerkleProof.root p = getRoot tree \<and> leaf p = [3]"
proof
  fix H
  have "[[1], [2], [3 :: byte]] \<noteq> []" "(0::int) \<le> 2" "(2::int) < int (length [[1], [2], [3 :: byte]])"
    by simp_all
  from merkle_roundtrip[OF this, of H]
  show "\<exists>tree p. new_MerkleTree H [[1], [2], [3]] = Inr tree \<and> getProof tree 2 = Inr p
         \<and> MerkleProof_verify H p \<and> MerkleProof.root p = getRoot tree \<and> leaf p = [3]"
    by simp
qed

section \<open>The loop of deriveQueryIndices\<close>







lemma distinct_keep_first [simp]: "distinct (keep_first l)"
  by (simp add: keep_first_def)













section \<open>The trace\<close>

lemma mul_same:
  "modulus a = m \<Longrightarrow> modulus b = m \<Longrightarrow> m \<noteq> 0 \<Longrightarrow>
   mul a b = Inr \<lparr>value = mod_fe m (value a * value b), modulus = m\<rparr>"
  by (simp add: mul_def ensureSameField_def new_FieldElement_def)

lemma pow_loop_ok:
  "modulus result = m \<Longrightarrow> modulus base = m \<Longrightarrow> m \<noteq> 0 \<Longrightarrow>
   \<exists>y. pow_loop result base e = Inr y \<and> modulus y = m"
proof (induction result base e rule: pow_loop.induct)
  case (1 result base e)
  show ?case
  proof (cases "e > 0")
    case False
    then show ?thesis using "1.prems" by (simp add: pow_loop.simps[of result base e])
  next
    case True
    let ?r = "if e smod 2 = 1 then mul result base else Inr result"
    obtain r' where r': "?r = Inr r'" "modulus r' = m"
      using "1.prems" by (cases "e smod 2 = 1") (simp_all add: mul_same)
    obtain b' where b': "mul base base = Inr b'" "modulus b' = m"
      using "1.prems" by (simp add: mul_same)
    have "\<exists>y. pow_loop r' b' (e sdiv 2) = Inr y \<and> modulus y = m"
      by (rule "1.IH"[OF True r'(1) b'(1) r'(2) b'(2) "1.prems"(3)])
    then show ?thesis
      using True r'(1) b'(1) by (subst pow_loop.simps) simp
  qed
qed

lemma authHash_ok:
  assumes "modulus x \<noteq> 0"
  shows "\<exists>y. authHash x = Inr y \<and> modulus y = modulus x"
proof -
  let ?m = "modulus x"
  have c7: "new_FieldElement 7 ?m = Inr \<lparr>value = mod_fe ?m 7, modulus = ?m\<rparr>"
    and one: "new_FieldElement 1 ?m = Inr \<lparr>value = mod_fe ?m 1, modulus = ?m\<rparr>"
    using assms by (simp_all add: new_FieldElement_def)
  obtain x3 where x3: "pow_loop \<lparr>value = mod_fe ?m 1, modulus = ?m\<rparr> x 3 = Inr x3" "modulus x3 = ?m"
    using pow_loop_ok[of "\<lparr>value = mod_fe ?m 1, modulus = ?m\<rparr>" ?m x 3] assms by auto
  have "pow x 3 = Inr x3"
    using one x3 by (simp add: pow_def pow_nonneg_def)
  then show ?thesis
    using c7 x3(2) assms by (simp add: authHash_def add_def ensureSameField_def new_FieldElement_def)
qed

lemma is_chain_snoc:
  assumes "is_chain trace" "trace \<noteq> []" "authHash (last trace) = Inr t"
  shows "is_chain (trace @ [t])"
  unfolding is_chain_def
proof (intro allI impI)
  fix j assume j: "j + 1 < length (trace @ [t])"
  show "authHash ((trace @ [t]) ! j) = Inr ((trace @ [t]) ! (j + 1))"
  proof (cases "j + 1 < length trace")
    case True
    then show ?thesis using assms(1) by (simp add: is_chain_def nth_append)
  next
    case False
    with j have e: "j = length trace - 1" "j + 1 = length trace" by simp_all
    then have "trace ! j = last trace" using assms(2) by (simp add: last_conv_nth)
    then show ?thesis using e assms(2,3) by (simp add: nth_append)
  qed
qed

lemma buildAuthTrace_loop_ok:
  "trace \<noteq> [] \<Longrightarrow> int (length trace) = i \<Longrightarrow> i \<le> n \<Longrightarrow> is_chain trace \<Longrightarrow>
   modulus (last trace) \<noteq> 0 \<Longrightarrow>
   \<exists>trace'. buildAuthTrace_loop i n trace = Inr trace' \<and> int (length trace') = n
      \<and> trace' ! 0 = trace ! 0 \<and> is_chain trace'"
proof (induction i n trace rule: buildAuthTrace_loop.induct)
  case (1 i n trace)
  show ?case
  proof (cases "i < n")
    case False
    with "1.prems" show ?thesis by (subst buildAuthTrace_loop.simps) simp
  next
    case True
    have "nat (i - 1) = length trace - 1" using "1.prems"(1,2) by auto
    then have l: "trace ! nat (i - 1) = last trace"
      using "1.prems"(1) by (simp add: last_conv_nth)
    obtain t where t: "authHash (last trace) = Inr t" "modulus t = modulus (last trace)"
      using authHash_ok[OF "1.prems"(5)] by blast
    have "\<exists>trace'. buildAuthTrace_loop (i + 1) n (trace @ [t]) = Inr trace' \<and> int (length trace') = n
      \<and> trace' ! 0 = (trace @ [t]) ! 0 \<and> is_chain trace'"
    proof (rule "1.IH"[OF True])
      show "authHash (trace ! nat (i - 1)) = Inr t" using t(1) l by simp
      show "trace @ [t] \<noteq> []" by simp
      show "int (length (trace @ [t])) = i + 1" using "1.prems"(2) by simp
      show "i + 1 \<le> n" using True by simp
      show "is_chain (trace @ [t])" by (rule is_chain_snoc[OF "1.prems"(4,1) t(1)])
      show "modulus (last (trace @ [t])) \<noteq> 0" using t(2) "1.prems"(5) by simp
    qed
    then show ?thesis
      using True t(1) l "1.prems"(1)
      by (subst buildAuthTrace_loop.simps) (simp add: nth_append)
  qed
qed

lemma buildAuthTrace_ok:
  assumes "modulus (secret w) \<noteq> 0" "2 \<le> AuthParams.steps ps" "AuthParams.steps ps \<le> MAX_ARRAY_LENGTH"
  shows "\<exists>trace. buildAuthTrace w ps = Inr trace \<and> int (length trace) = AuthParams.steps ps
      \<and> authHash (secret w) = Inr (trace ! 0) \<and> is_chain trace"
proof -
  obtain t0 where t0: "authHash (secret w) = Inr t0" "modulus t0 = modulus (secret w)"
    using authHash_ok[OF assms(1)] by blast
  have "\<exists>trace'. buildAuthTrace_loop 1 (AuthParams.steps ps) [t0] = Inr trace'
      \<and> int (length trace') = AuthParams.steps ps \<and> trace' ! 0 = [t0] ! 0 \<and> is_chain trace'"
    using assms t0 by (intro buildAuthTrace_loop_ok) (simp_all add: is_chain_def)
  then show ?thesis
    using assms t0 by (auto simp: buildAuthTrace_def Let_def)
qed

lemma chain_transition_iter:
  assumes "authHash s = Inr (trace ! 0)" "is_chain trace"
  shows "i < length trace \<Longrightarrow> transition_iter (Suc i) s = Inr (trace ! i)"
proof (induction i)
  case 0
  then show ?case using assms(1) by simp
next
  case (Suc i)
  then have "transition_iter (Suc i) s = Inr (trace ! i)" by simp
  moreover have "authHash (trace ! i) = Inr (trace ! (i + 1))"
    using assms(2) Suc.prems by (simp add: is_chain_def)
  ultimately show ?case by simp
qed

lemma bindE_assoc: "bindE (bindE r f) g = bindE r (\<lambda>x. bindE (f x) g)"
  by (cases r) simp_all

lemma transition_iter_shift:
  "bindE (authHash s) (transition_iter k) = transition_iter (Suc k) s"
proof (induction k)
  case 0
  then show ?case by (cases "authHash s") simp_all
next
  case (Suc k)
  have "transition_iter (Suc (Suc k)) s = bindE (transition_iter (Suc k) s) authHash"
    by (rule transition_iter.simps(2))
  also have "\<dots> = bindE (bindE (authHash s) (transition_iter k)) authHash"
    by (simp only: Suc)
  also have "\<dots> = bindE (authHash s) (\<lambda>a. bindE (transition_iter k a) authHash)"
    by (rule bindE_assoc)
  also have "\<dots> = bindE (authHash s) (transition_iter (Suc k))"
    by (cases "authHash s") simp_all
  finally show ?case by (rule sym)
qed

section \<open>The loop of the verifier\<close>

lemma arrayEqualNumbers_iff: "arrayEqualNumbers a b \<longleftrightarrow> a = b"
proof (cases "length a = length b")
  case True
  have "list_all (\<lambda>i. a ! i = b ! i) [0..<length a] \<longleftrightarrow> (\<forall>i<length a. a ! i = b ! i)"
    by (simp add: list_all_iff Ball_def)
  also have "\<dots> \<longleftrightarrow> a = b"
    using True list_eq_iff_nth_eq[of a b] by blast
  finally show ?thesis using True by (simp add: arrayEqualNumbers_def)
next
  case False
  then have "a \<noteq> b" by blast
  with False show ?thesis by (simp add: arrayEqualNumbers_def)
qed

lemma equals_iff: "equals (a::FieldElement) b \<longleftrightarrow> a = b"
  by (cases a; cases b) (auto simp: equals_def)

lemma verify_loop_step_ok:
  assumes i: "i < length (indices prf)"
    and ok: "opening_ok H st n (Proof.root prf) (indices prf ! i) (openings prf ! i)"
  shows "verify_loop H st n prf i b =
     verify_loop H st n prf (i + 1) (b \<or> indices prf ! i = n - 2)"
proof -
  let ?idx = "indices prf ! i" and ?o = "openings prf ! i"
  from ok have f: "index ?o = ?idx" "\<not> (?idx < 0 \<or> ?idx \<ge> n - 1)"
    "arraysEqual (MerkleProof.root (proofCurrent ?o)) (Proof.root prf)"
    "arraysEqual (MerkleProof.root (proofNext ?o)) (Proof.root prf)"
    "MerkleProof_verify H (proofCurrent ?o)" "MerkleProof_verify H (proofNext ?o)"
    "authHash (current ?o) = Inr (next ?o)" "equals (next ?o) (next ?o)"
    by (simp_all add: opening_ok_def arraysEqual_iff equals_iff)
  show ?thesis
  proof (cases "?idx = n - 2")
    case True
    with ok have "equals (next ?o) (finalHash st)" by (simp add: opening_ok_def equals_iff)
    with True i f show ?thesis
      by (subst verify_loop.simps) (simp add: Let_def)
  next
    case False
    with i f show ?thesis
      by (subst verify_loop.simps) (simp add: Let_def)
  qed
qed

lemma verify_loop_all_ok:
  assumes "\<forall>j. i \<le> j \<and> j < length (indices prf) \<longrightarrow>
             opening_ok H st n (Proof.root prf) (indices prf ! j) (openings prf ! j)"
  shows "verify_loop H st n prf i b =
     Inr (b \<or> (\<exists>j. i \<le> j \<and> j < length (indices prf) \<and> indices prf ! j = n - 2))"
  using assms
proof (induction "length (indices prf) - i" arbitrary: i b)
  case 0
  then have "\<not> i < length (indices prf)" by simp
  then show ?case by (subst verify_loop.simps) auto
next
  case (Suc m)
  then have i: "i < length (indices prf)" and m: "m = length (indices prf) - (i + 1)" by simp_all
  have ok: "opening_ok H st n (Proof.root prf) (indices prf ! i) (openings prf ! i)"
    using Suc.prems i by simp
  have rest: "\<forall>j. i + 1 \<le> j \<and> j < length (indices prf) \<longrightarrow>
             opening_ok H st n (Proof.root prf) (indices prf ! j) (openings prf ! j)"
    using Suc.prems by simp
  have "verify_loop H st n prf i b
      = Inr ((b \<or> indices prf ! i = n - 2)
             \<or> (\<exists>j. i + 1 \<le> j \<and> j < length (indices prf) \<and> indices prf ! j = n - 2))"
    unfolding verify_loop_step_ok[OF i ok] by (rule Suc.hyps(1)[OF m rest])
  moreover have "(\<exists>j. i \<le> j \<and> j < length (indices prf) \<and> indices prf ! j = n - 2)
      \<longleftrightarrow> indices prf ! i = n - 2
          \<or> (\<exists>j. i + 1 \<le> j \<and> j < length (indices prf) \<and> indices prf ! j = n - 2)"
  proof -
    have "\<And>j. i \<le> j \<longleftrightarrow> j = i \<or> i + 1 \<le> j" by auto
    then show ?thesis using i by auto
  qed
  ultimately show ?case by auto
qed



section \<open>A proof the prover returns is accepted\<close>







section \<open>The value of the transition\<close>

lemma pow_3:
  assumes "0 < modulus x"
  shows "pow x 3 = Inr \<lparr>value = (value x ^ 3) mod modulus x, modulus = modulus x\<rparr>"
proof -
  let ?m = "modulus x" and ?v = "value x"
  have m: "?m \<noteq> 0" using assms by simp
  let ?one = "\<lparr>value = 1 mod ?m, modulus = ?m\<rparr>"
  let ?r1 = "\<lparr>value = (1 mod ?m * ?v) mod ?m, modulus = ?m\<rparr>"
  let ?b1 = "\<lparr>value = (?v * ?v) mod ?m, modulus = ?m\<rparr>"
  let ?r2 = "\<lparr>value = ((1 mod ?m * ?v) mod ?m * ((?v * ?v) mod ?m)) mod ?m, modulus = ?m\<rparr>"
  let ?b2 = "\<lparr>value = ((?v * ?v) mod ?m * ((?v * ?v) mod ?m)) mod ?m, modulus = ?m\<rparr>"
  have s3: "(3::int) smod 2 = 1" "(3::int) sdiv 2 = 1" "(1::int) smod 2 = 1" "(1::int) sdiv 2 = 0"
    by (simp_all add: signed_modulo_int_def signed_divide_int_def)
  have l0: "pow_loop ?r2 ?b2 0 = Inr ?r2"
    by (subst pow_loop.simps) simp
  have l1: "pow_loop ?r1 ?b1 1 = Inr ?r2"
    by (subst pow_loop.simps) (simp add: s3 mul_same[OF _ _ m] mod_fe_pos[OF assms] l0)
  have l3: "pow_loop ?one x 3 = Inr ?r2"
    by (subst pow_loop.simps) (simp add: s3 mul_same[OF _ _ m] mod_fe_pos[OF assms] l1)
  have "(1 mod ?m * ?v) mod ?m = ?v mod ?m"
    by (metis mod_mult_left_eq mult_1)
  then have "((1 mod ?m * ?v) mod ?m * ((?v * ?v) mod ?m)) mod ?m = (?v * (?v * ?v)) mod ?m"
    by (metis mod_mult_eq)
  then have "((1 mod ?m * ?v) mod ?m * ((?v * ?v) mod ?m)) mod ?m = (?v ^ 3) mod ?m"
    by (simp only: power3_eq_cube mult.assoc)
  then show ?thesis
    using l3 by (simp add: pow_def pow_nonneg_def new_FieldElement_pos[OF assms])
qed

lemma authHash_value:
  assumes "0 < modulus x"
  shows "authHash x = Inr \<lparr>value = (value x ^ 3 + 7) mod modulus x, modulus = modulus x\<rparr>"
  by (simp add: authHash_def new_FieldElement_pos[OF assms] pow_3[OF assms] add_def
      ensureSameField_def mod_simps)

lemma cube_step:
  fixes v :: int
  assumes "v * v = q1 * p + s" "0 \<le> s" "s < p" "s * v + 7 = q2 * p + r" "0 \<le> r" "r < p"
  shows "(v ^ 3 + 7) mod p = r"
proof -
  have "(v ^ 3 + 7) mod p = ((v * v) mod p * v + 7) mod p"
    unfolding power3_eq_cube by (metis mod_add_left_eq mod_mult_left_eq)
  also have "(v * v) mod p = s"
    using assms(1,2,3) by (simp add: mod_pos_pos_trivial)
  also have "(s * v + 7) mod p = r"
    using assms(4,5,6) by (simp add: mod_pos_pos_trivial)
  finally show ?thesis .
qed

section \<open>The chain from the secret 123456789\<close>

lemma STARK_PRIME_numeral:
  "STARK_PRIME = 3618502788666131213697322783095070105623107215331596699973092056135872020481"
  by (simp add: STARK_PRIME_def)

lemma transition_iter_step:
  assumes "transition_iter k s = Inr \<lparr>value = v, modulus = STARK_PRIME\<rparr>"
    and "(v ^ 3 + 7) mod STARK_PRIME = v'"
  shows "transition_iter (Suc k) s = Inr \<lparr>value = v', modulus = STARK_PRIME\<rparr>"
  using assms authHash_value[of "\<lparr>value = v, modulus = STARK_PRIME\<rparr>"] STARK_PRIME_pos
  by simp

text \<open>
  Each step \<open>v \<mapsto> (v^3 + 7) mod P\<close> is checked from the two quotients of its reductions:
  \<open>v * v = q1 * P + s\<close> and \<open>s * v + 7 = q2 * P + r\<close>.
\<close>

lemma chain_step_0:
  "(123456789 ^ 3 + 7) mod STARK_PRIME
   = 1881676371789154860897076"
  unfolding STARK_PRIME_numeral
  by (rule cube_step[where ?q1.0 = 0
        and s = 15241578750190521
        and ?q2.0 = 0])
     simp_all

lemma chain_step_1:
  "(1881676371789154860897076 ^ 3 + 7) mod STARK_PRIME
   = 6662462759719942007440111886188110613843586215667146533793108673475654983"
  unfolding STARK_PRIME_numeral
  by (rule cube_step[where ?q1.0 = 0
        and s = 3540705968149597751242404938859875371183465349776
        and ?q2.0 = 0])
     simp_all

lemma chain_step_2:
  "(6662462759719942007440111886188110613843586215667146533793108673475654983 ^ 3 + 7) mod STARK_PRIME
   = 2514402085275294819636127038151528972360067063612747256149924296897562637801"
  unfolding STARK_PRIME_numeral
  by (rule cube_step[where ?q1.0 = 12267065307698082836468430253069562997013823710739791064155304591438129
        and s = 3347999359026965110654058334237233244818185528823112050716156283980120410240
        and ?q2.0 = 6164406206608424345323367402783564788777952841965707851514613975200966046])
     simp_all

lemma chain_step_3:
  "(2514402085275294819636127038151528972360067063612747256149924296897562637801 ^ 3 + 7) mod STARK_PRIME
   = 3606365321034081982286699505747643798638155760419678806371532784110852130975"
  unfolding STARK_PRIME_numeral
  by (rule cube_step[where ?q1.0 = 1747191646843327530902477458290419147221020862020419000377324671301893482891
        and s = 2965160304260160787210724293331560715345274950176050858533036830842739025030
        and ?q2.0 = 2060411636425902743525236569897630355562701662022312134044933623397911819102])
     simp_all

lemma chain_step_4:
  "(3606365321034081982286699505747643798638155760419678806371532784110852130975 ^ 3 + 7) mod STARK_PRIME
   = 2245937337506616301124559402958643624758470198222963065391702024631943507273"
  unfolding STARK_PRIME_numeral
  by (rule cube_step[where ?q1.0 = 3594268565853873460344053178949501917114141462235654461898935482810003986660
        and s = 656984546170691466039694743337139182173087281641621219602505674539383667165
        and ?q2.0 = 654780836755604133553501628670185141547123365348361933588276201340177541889])
     simp_all

lemma chain_step_5:
  "(2245937337506616301124559402958643624758470198222963065391702024631943507273 ^ 3 + 7) mod STARK_PRIME
   = 933218159671695172980852304358573203382259424637936826651098639475058770905"
  unfolding STARK_PRIME_numeral
  by (rule cube_step[where ?q1.0 = 1394011506583842357101673676850324032215268723465511303699706239961086589887
        and s = 927565554479804983756521454842872608905053627756831524492342032359292420882
        and ?q2.0 = 575722676880721698715721178436172662552599982460572060961343748399065056848])
     simp_all

lemma chain_step_6:
  "(933218159671695172980852304358573203382259424637936826651098639475058770905 ^ 3 + 7) mod STARK_PRIME
   = 3160279276870947972373746538120029882397475863876273792963424017407890386060"
  unfolding STARK_PRIME_numeral
  by (rule cube_step[where ?q1.0 = 240678585703690779779544225662445764809709039425385686130793971360252921254
        and s = 3031714346817991644947368843728303214994065691891806157684861833805706315851
        and ?q2.0 = 781884400434770083409699677399098035037790858529901590176253468328418556942])
     simp_all

lemma chain_step_7:
  "(3160279276870947972373746538120029882397475863876273792963424017407890386060 ^ 3 + 7) mod STARK_PRIME
   = 29892163720162278697131545679155997436218695948683400063249868247030544882"
  unfolding STARK_PRIME_numeral
  by (rule cube_step[where ?q1.0 = 2760082191756870060367388375894747548503895732652271791363925315570298819775
        and s = 2165310510864536688653954788838641828386744952524723477636336244416914511825
        and ?q2.0 = 1891109758685175206974023255028450231127041739283919558302807577836188694625])
     simp_all

lemma chain_step_8:
  "(29892163720162278697131545679155997436218695948683400063249868247030544882 ^ 3 + 7) mod STARK_PRIME
   = 2047823901939017769312684707615548835002405345364564844837103155106359276270"
  unfolding STARK_PRIME_numeral
  by (rule cube_step[where ?q1.0 = 246936786858845349500688429511928662336948923164817066490233120372546123
        and s = 2990691879201110850500284151420949221296684297851996709430619243523443248761
        and ?q2.0 = 24705867733376482967635062215528270794153054274632403082100116054668061819])
     simp_all

lemma chain_step_9:
  "(2047823901939017769312684707615548835002405345364564844837103155106359276270 ^ 3 + 7) mod STARK_PRIME
   = 3607288156092014676928726022524859654273006369992383125328959785166407393810"
  unfolding STARK_PRIME_numeral
  by (rule cube_step[where ?q1.0 = 1158927594718975250254449866469335731194756827570339587873092729632610585820
        and s = 1053909898481427846900866735523810480052282892836977857177052306645736933480
        and ?q2.0 = 596440574085052767383842039376207452058655953559224680242430684464934928037])
     simp_all

lemma chain_step_10:
  "(3607288156092014676928726022524859654273006369992383125328959785166407393810 ^ 3 + 7) mod STARK_PRIME
   = 2756573486090801225262021522987176407913959956400651350867692700302123009057"
  unfolding STARK_PRIME_numeral
  by (rule cube_step[where ?q1.0 = 3596108280430112320561485016872538915953458367150050513282759784196903094425
        and s = 668395604404983721094344219687365666335203812840074503597137232150549397675
        and ?q2.0 = 666324081580395936093289349251761633668458472279663846863003380210790366700])
     simp_all

lemma chain_step_11:
  "(2756573486090801225262021522987176407913959956400651350867692700302123009057 ^ 3 + 7) mod STARK_PRIME
   = 2874275722804648296831448095336651329398579520709588336891848645153299082771"
  unfolding STARK_PRIME_numeral
  by (rule cube_step[where ?q1.0 = 2099956205096599837275909980995359954883162880419324279685607651842302053955
        and s = 3142760797455385367534873346602534037810467115509169799722416864493976976894
        and ?q2.0 = 2394153492026072119127626016301734846448869324067642834051154447170209482674])
     simp_all

lemma chain_step_12:
  "(2874275722804648296831448095336651329398579520709588336891848645153299082771 ^ 3 + 7) mod STARK_PRIME
   = 3433028980746556464675640944323280321131155748449296905881308156057553679203"
  unfolding STARK_PRIME_numeral
  by (rule cube_step[where ?q1.0 = 2283115811484440040949428835359572207417031651075855245026819832449735186280
        and s = 3195891009136822370148886730191745261134810977813745171963400055167398837761
        and ?q2.0 = 2538583628859867325419826999361234148661024840102661571290828784924977943735])
     simp_all

lemma chain_step_13:
  "(3433028980746556464675640944323280321131155748449296905881308156057553679203 ^ 3 + 7) mod STARK_PRIME
   = 3128414937829098260329560272736002413271461741068877510216948020427166784427"
  unfolding STARK_PRIME_numeral
  by (rule cube_step[where ?q1.0 = 3257062014588147854860223947439593674579071532565388773431728705415481947510
        and s = 2797195589859655813284887174081699900841678075286679871297425979237347762899
        and ?q2.0 = 2653819572803066453638279777233821858151125059560441327307400903864475804917])
     simp_all

lemma chain_step_14:
  "(3128414937829098260329560272736002413271461741068877510216948020427166784427 ^ 3 + 7) mod STARK_PRIME
   = 930566783597877078023043264292459225470457249286366995121551712776629778486"
  unfolding STARK_PRIME_numeral
  by (rule cube_step[where ?q1.0 = 2704704292031224705707124040928902966663270812461056276492584891387501063407
        and s = 2622964759108484836099231186171808427346314194298360711742731011057906079562
        and ?q2.0 = 2267711982838934473671313012559052996618280455881040679905959837113374712895])
     simp_all

lemma chain_step_15:
  "(930566783597877078023043264292459225470457249286366995121551712776629778486 ^ 3 + 7) mod STARK_PRIME
   = 219140938346724508678589832864411469745782801775363872164495614331709874543"
  unfolding STARK_PRIME_numeral
  by (rule cube_step[where ?q1.0 = 239312939442257621608332104224783848315980122191116807994644728901027834656
        and s = 2768074946137690679153954051753129819756108205012332247267709586882314862660
        and ?q2.0 = 711863096376042759738138394913256257451644683218484719272640710648314072304])
     simp_all

lemma chain_step_16:
  "(219140938346724508678589832864411469745782801775363872164495614331709874543 ^ 3 + 7) mod STARK_PRIME
   = 1881132594001159860325789833568452037259341147786415311488277476746186605706"
  unfolding STARK_PRIME_numeral
  by (rule cube_step[where ?q1.0 = 13271442268857632919137723682585961820471333527074081923527815976716207112
        and s = 1092644052872705640780179175640094234817421365726267384359463889486497597977
        and ?q2.0 = 66171855325212379748191073435517072586712693520108337946905806091401024852])
     simp_all

lemma transition_iter_16:
  "transition_iter 16 \<lparr>value = 123456789, modulus = STARK_PRIME\<rparr>
   = Inr \<lparr>value = 219140938346724508678589832864411469745782801775363872164495614331709874543,
          modulus = STARK_PRIME\<rparr>"
proof -
  have i0: "transition_iter 0 \<lparr>value = 123456789, modulus = STARK_PRIME\<rparr>
      = Inr \<lparr>value = 123456789, modulus = STARK_PRIME\<rparr>" by simp
  note i1 = transition_iter_step[OF i0 chain_step_0]
  note i2 = transition_iter_step[OF i1 chain_step_1]
  note i3 = transition_iter_step[OF i2 chain_step_2]
  note i4 = transition_iter_step[OF i3 chain_step_3]
  note i5 = transition_iter_step[OF i4 chain_step_4]
  note i6 = transition_iter_step[OF i5 chain_step_5]
  note i7 = transition_iter_step[OF i6 chain_step_6]
  note i8 = transition_iter_step[OF i7 chain_step_7]
  note i9 = transition_iter_step[OF i8 chain_step_8]
  note i10 = transition_iter_step[OF i9 chain_step_9]
  note i11 = transition_iter_step[OF i10 chain_step_10]
  note i12 = transition_iter_step[OF i11 chain_step_11]
  note i13 = transition_iter_step[OF i12 chain_step_12]
  note i14 = transition_iter_step[OF i13 chain_step_13]
  note i15 = transition_iter_step[OF i14 chain_step_14]
  note i16 = transition_iter_step[OF i15 chain_step_15]
  have "(16::nat) = Suc (Suc (Suc (Suc (Suc (Suc (Suc (Suc (Suc (Suc (Suc (Suc (Suc (Suc (Suc (Suc 0)))))))))))))))"
    by simp
  then show ?thesis using i16 by (simp only:)
qed

lemma transition_iter_17:
  "transition_iter 17 \<lparr>value = 123456789, modulus = STARK_PRIME\<rparr>
   = Inr \<lparr>value = 1881132594001159860325789833568452037259341147786415311488277476746186605706,
          modulus = STARK_PRIME\<rparr>"
proof -
  have "(17::nat) = Suc 16" by simp
  then show ?thesis
    using transition_iter_step[OF transition_iter_16 chain_step_16] by (simp only:)
qed

section \<open>The claim on the trace\<close>


lemma trace_at_buildAuthTrace:
  assumes "modulus (secret w) \<noteq> 0" "2 \<le> AuthParams.steps ps" "AuthParams.steps ps \<le> MAX_ARRAY_LENGTH"
    and "int i < AuthParams.steps ps"
  shows "trace_at i (buildAuthTrace w ps) = transition_iter (Suc i) (secret w)"
proof -
  obtain trace where tr: "buildAuthTrace w ps = Inr trace" "int (length trace) = AuthParams.steps ps"
    "authHash (secret w) = Inr (trace ! 0)" "is_chain trace"
    using buildAuthTrace_ok[OF assms(1,2,3)] by blast
  have "i < length trace" using tr(2) assms(4) by simp
  from chain_transition_iter[OF tr(3,4) this] show ?thesis
    by (simp add: trace_at_def tr(1))
qed

lemma trace_15:
  "trace_at 15 (buildAuthTrace \<lparr>secret = \<lparr>value = 123456789, modulus = STARK_PRIME\<rparr>\<rparr>
      \<lparr>AuthParams.steps = 16, queries = q\<rparr>)
   = transition_iter 16 \<lparr>value = 123456789, modulus = STARK_PRIME\<rparr>"
proof -
  have "trace_at 15 (buildAuthTrace \<lparr>secret = \<lparr>value = 123456789, modulus = STARK_PRIME\<rparr>\<rparr>
      \<lparr>AuthParams.steps = 16, queries = q\<rparr>)
   = transition_iter (Suc 15) (secret \<lparr>secret = \<lparr>value = 123456789, modulus = STARK_PRIME\<rparr>\<rparr>)"
    by (rule trace_at_buildAuthTrace) (simp_all add: STARK_PRIME_def MAX_ARRAY_LENGTH_def)
  then show ?thesis by simp
qed

text \<open>
  Claim C4, as the code has it. For secret = 123456789 and steps = 16, \<open>buildAuthTrace\<close>
  returns a trace whose element 15 is the transition applied 15 times to
  \<open>Transition(secret)\<close>, that is 16 times to the secret: the value \<open>2191...4543\<close>.
\<close>

theorem trace_final_value:
  "trace_at 15 (buildAuthTrace \<lparr>secret = \<lparr>value = 123456789, modulus = STARK_PRIME\<rparr>\<rparr>
      \<lparr>AuthParams.steps = 16, queries = q\<rparr>)
     = bindE (authHash \<lparr>value = 123456789, modulus = STARK_PRIME\<rparr>) (transition_iter 15)
   \<and> trace_at 15 (buildAuthTrace \<lparr>secret = \<lparr>value = 123456789, modulus = STARK_PRIME\<rparr>\<rparr>
      \<lparr>AuthParams.steps = 16, queries = q\<rparr>)
     = Inr \<lparr>value = 219140938346724508678589832864411469745782801775363872164495614331709874543,
            modulus = STARK_PRIME\<rparr>"
proof -
  have "bindE (authHash \<lparr>value = 123456789, modulus = STARK_PRIME\<rparr>) (transition_iter 15)
      = transition_iter (Suc 15) \<lparr>value = 123456789, modulus = STARK_PRIME\<rparr>"
    by (rule transition_iter_shift)
  then show ?thesis
    unfolding trace_15 using transition_iter_16 by simp
qed

text \<open>
  Claim C4 as it is written fails: 16 applications to \<open>Transition(secret)\<close> are 17
  applications to the secret, the value \<open>1881...5706\<close>, which is not element 15 of the
  trace.
\<close>

theorem trace_final_value_counterexample:
  "trace_at 15 (buildAuthTrace \<lparr>secret = \<lparr>value = 123456789, modulus = STARK_PRIME\<rparr>\<rparr>
      \<lparr>AuthParams.steps = 16, queries = 5\<rparr>)
     \<noteq> bindE (authHash \<lparr>value = 123456789, modulus = STARK_PRIME\<rparr>) (transition_iter 16)"
proof -
  have "bindE (authHash \<lparr>value = 123456789, modulus = STARK_PRIME\<rparr>) (transition_iter 16)
      = transition_iter (Suc 16) \<lparr>value = 123456789, modulus = STARK_PRIME\<rparr>"
    by (rule transition_iter_shift)
  then have "bindE (authHash \<lparr>value = 123456789, modulus = STARK_PRIME\<rparr>) (transition_iter 16)
      = transition_iter 17 \<lparr>value = 123456789, modulus = STARK_PRIME\<rparr>"
    by simp
  then show ?thesis
    unfolding trace_15 transition_iter_16 transition_iter_17 by simp
qed

section \<open>The claim on the index derivation\<close>



section \<open>A hash function for the instances\<close>






section \<open>The claim of completeness\<close>




section \<open>The claims on the verifier\<close>

lemma authHash_5:
  "authHash \<lparr>value = 5, modulus = STARK_PRIME\<rparr> = Inr \<lparr>value = 132, modulus = STARK_PRIME\<rparr>"
proof -
  have "(132::int) mod STARK_PRIME = 132"
    by (rule mod_pos_pos_trivial) (simp_all add: STARK_PRIME_def)
  then have "((5::int) ^ 3 + 7) mod STARK_PRIME = 132" by simp
  then show ?thesis
    using authHash_value[of "\<lparr>value = 5, modulus = STARK_PRIME\<rparr>"] STARK_PRIME_pos by simp
qed

lemma deriveQueryIndices_one:
  "deriveQueryIndices H seed \<lparr>AuthParams.steps = 2, queries = 1\<rparr> = Some (Inr [0])"
  unfolding deriveQueryIndices_def Let_def
  by (subst deriveQueryIndices_loop.simps) simp

lemma forged_accepted:
  "StarkVerifier_verify H forged_statement forged_params (forged_proof rt) = Some True"
proof -
  let ?pf = "forged_proof rt"
  have ok: "\<forall>j. 0 \<le> j \<and> j < length (indices ?pf) \<longrightarrow>
      opening_ok H forged_statement 2 (Proof.root ?pf) (indices ?pf ! j) (openings ?pf ! j)"
    by (simp add: forged_proof_def forged_opening_def forged_statement_def opening_ok_def
        MerkleProof_verify_def arraysEqual_iff authHash_5)
  have "verify_loop H forged_statement 2 ?pf 0 False = Inr True"
    unfolding verify_loop_all_ok[OF ok] by (simp add: forged_proof_def)
  then have "verify_body H forged_statement forged_params ?pf = Some (Inr True)"
    by (simp add: verify_body_def forged_params_def deriveQueryIndices_one
        arrayEqualNumbers_iff forged_proof_def)
  then show ?thesis by (simp add: StarkVerifier_verify_def)
qed



text \<open>
  Claim C5. For every hash function there is a proof that \<open>verify\<close> accepts and in which
  the bytes of an opening's \<open>current\<close> differ from the leaf of its \<open>proofCurrent\<close>: the
  verifier never compares the two. (The proof here is \<open>forged_proof\<close> on the root of 32
  bytes \<open>0xff\<close>.)
\<close>

theorem leaf_never_compared:
  "\<exists>st ps prf i. StarkVerifier_verify H st ps prf = Some True
      \<and> i < length (openings prf)
      \<and> fieldElementToBytes (current (openings prf ! i)) \<noteq> leaf (proofCurrent (openings prf ! i))"
proof -
  let ?rt = "replicate 32 (255::byte)"
  let ?pf = "forged_proof ?rt"
  have "bytes_to_int (fieldElementToBytes \<lparr>value = 5, modulus = STARK_PRIME\<rparr>) = 5"
    by (rule bytes_to_int_toBytes[of "\<lparr>value = 5, modulus = STARK_PRIME\<rparr>", simplified])
  then have "fieldElementToBytes \<lparr>value = 5, modulus = STARK_PRIME\<rparr> \<noteq> ?rt"
    using bytes_to_int_ff by auto
  then have "fieldElementToBytes (current (openings ?pf ! 0)) \<noteq> leaf (proofCurrent (openings ?pf ! 0))"
    by (simp add: forged_proof_def forged_opening_def)
  moreover have "0 < length (openings ?pf)" by (simp add: forged_proof_def)
  ultimately show ?thesis using forged_accepted[of H ?rt] by blast
qed



end
